theory Spec2Isabelle
  imports Complex_Main "HOL-Library.Sublist" "HOL-Library.AList"
begin

section \<open>Python strings\<close>

text \<open>
  A Python \<open>str\<close> is modelled as a \<open>string\<close>: each \<open>char\<close> stands for one code point
  below 256, so \<open>length\<close> counts what Python's \<open>len\<close> counts. Code points above 255 are
  outside the model.
\<close>

definition NL :: char where
  "NL = CHR 0x0A"

text \<open>\<open>str.isspace\<close> on one code point below 256: TAB, LF, VT, FF, CR, the separators
  FS, GS, RS, US, the space, NEL (0x85) and the no-break space (0xA0).\<close>

definition py_isspace :: "char \<Rightarrow> bool" where
  "py_isspace c =
     (let n = (of_char c :: nat)
      in (9 \<le> n \<and> n \<le> 13) \<or> (28 \<le> n \<and> n \<le> 32) \<or> n = 133 \<or> n = 160)"

text \<open>\<open>s.strip()\<close>: whitespace removed at both ends.\<close>

definition py_lstrip :: "string \<Rightarrow> string" where
  "py_lstrip s = dropWhile py_isspace s"

definition py_rstrip :: "string \<Rightarrow> string" where
  "py_rstrip s = rev (dropWhile py_isspace (rev s))"

definition py_strip :: "string \<Rightarrow> string" where
  "py_strip s = py_rstrip (py_lstrip s)"

text \<open>\<open>s.split('\n')\<close>: never the empty list; the empty string gives one empty line.\<close>

fun split_nl :: "string \<Rightarrow> string list" where
  "split_nl [] = [[]]"
| "split_nl (c # cs) =
     (if c = NL then [] # split_nl cs
      else (case split_nl cs of
              [] \<Rightarrow> [[c]]
            | l # ls \<Rightarrow> (c # l) # ls))"

text \<open>\<open>s.count('\n')\<close>.\<close>

definition count_nl :: "string \<Rightarrow> nat" where
  "count_nl s = length (filter (\<lambda>c. c = NL) s)"

text \<open>\<open>line.startswith((p1, ..., pn))\<close> with a tuple of prefixes.\<close>

definition startswith_any :: "string list \<Rightarrow> string \<Rightarrow> bool" where
  "startswith_any ps line = list_ex (\<lambda>p. prefix p line) ps"

text \<open>\<open>p in s\<close> for strings: \<open>p\<close> occurs in \<open>s\<close> as a contiguous substring.\<close>

fun contains :: "string \<Rightarrow> string \<Rightarrow> bool" where
  "contains p [] = (p = [])"
| "contains p (c # cs) = (prefix p (c # cs) \<or> contains p cs)"

section \<open>Content validation\<close>

text \<open>The metadata prefixes of \<open>get_markdown_content\<close> (line 270) and of
  \<open>create_zip_file\<close> (line 349): the same tuple in both places.\<close>

definition metadata_prefixes :: "string list" where
  "metadata_prefixes = [''# Original URL:'', ''Title:'', ''URL Source:'', ''Markdown Content:'']"

text \<open>\<open>all(line.startswith(prefixes) for line in lines if line.strip())\<close>.\<close>

definition only_metadata :: "string list \<Rightarrow> bool" where
  "only_metadata lines =
     list_all (startswith_any metadata_prefixes) (filter (\<lambda>line. py_strip line \<noteq> []) lines)"

text \<open>
  The fetch-time check, lines 265 to 272 of \<open>get_markdown_content\<close>, as a predicate of the
  variable \<open>content\<close> it is applied to. Either of the two \<open>raise\<close> statements rejects.
\<close>

definition too_short :: "string \<Rightarrow> bool" where
  "too_short content = (length content < 50 \<or> count_nl content < 3)"

definition fetch_rejects :: "string \<Rightarrow> bool" where
  "fetch_rejects content = (too_short content \<or> only_metadata (split_nl content))"

text \<open>
  The fetch-time pass as the response text meets it, lines 261 to 272: the text is stripped
  (line 261) and the check is applied to the stripped text.
\<close>

definition fetch_time_rejects :: "string \<Rightarrow> bool" where
  "fetch_time_rejects text = fetch_rejects (py_strip text)"

text \<open>
  The archival-time check, lines 347 to 350 of \<open>create_zip_file\<close>: the length is taken of
  \<open>content.strip()\<close>, the line breaks and the lines of \<open>content\<close> itself.
\<close>

definition archive_rejects :: "string \<Rightarrow> bool" where
  "archive_rejects content =
     (length (py_strip content) < 50 \<or> count_nl content < 3 \<or> only_metadata (split_nl content))"

section \<open>File names\<close>

text \<open>\<open>title.encode('ascii', 'ignore')\<close> keeps the code points below 128.\<close>

definition is_ascii :: "char \<Rightarrow> bool" where
  "is_ascii c = ((of_char c :: nat) < 128)"

text \<open>The class \<open>\w\<close> of a \<open>str\<close> pattern on one code point below 256: the alphanumeric
  code points and the underscore.\<close>

definition re_word :: "char \<Rightarrow> bool" where
  "re_word c =
     (let n = (of_char c :: nat)
      in (48 \<le> n \<and> n \<le> 57) \<or> (65 \<le> n \<and> n \<le> 90) \<or> n = 95 \<or> (97 \<le> n \<and> n \<le> 122)
         \<or> n = 170 \<or> n = 178 \<or> n = 179 \<or> n = 181 \<or> n = 185 \<or> n = 186
         \<or> (188 \<le> n \<and> n \<le> 190) \<or> (192 \<le> n \<and> n \<le> 214)
         \<or> (216 \<le> n \<and> n \<le> 246) \<or> (248 \<le> n \<and> n \<le> 255))"

text \<open>The class \<open>[-\s]\<close>.\<close>

definition hyphen_or_space :: "char \<Rightarrow> bool" where
  "hyphen_or_space c = (c = CHR ''-'' \<or> py_isspace c)"

text \<open>\<open>re.sub(r'[-\s]+', '-', s)\<close>: every maximal run of hyphens and whitespace becomes one
  hyphen.\<close>

function collapse_hyphens :: "string \<Rightarrow> string" where
  "collapse_hyphens [] = []"
| "collapse_hyphens (c # cs) =
     (if hyphen_or_space c then CHR ''-'' # collapse_hyphens (dropWhile hyphen_or_space cs)
      else c # collapse_hyphens cs)"
  by pat_completeness auto
termination
proof (relation "measure length")
  show "wf (measure length)" by simp
next
  fix c :: char and cs :: string
  assume "hyphen_or_space c"
  have "length (dropWhile hyphen_or_space cs) \<le> length cs"
    by (rule length_dropWhile_le)
  then show "(dropWhile hyphen_or_space cs, c # cs) \<in> measure length" by simp
next
  fix c :: char and cs :: string
  assume "\<not> hyphen_or_space c"
  show "(cs, c # cs) \<in> measure length" by simp
qed

text \<open>\<open>s.strip('-')\<close> and \<open>s.rstrip('-')\<close>.\<close>

definition strip_hyphens :: "string \<Rightarrow> string" where
  "strip_hyphens s = rev (dropWhile (\<lambda>c. c = CHR ''-'') (rev (dropWhile (\<lambda>c. c = CHR ''-'') s)))"

definition rstrip_hyphens :: "string \<Rightarrow> string" where
  "rstrip_hyphens s = rev (dropWhile (\<lambda>c. c = CHR ''-'') (rev s))"

text \<open>The slice \<open>s[:m]\<close>: a negative \<open>m\<close> counts from the end.\<close>

definition py_slice_to :: "int \<Rightarrow> 'a list \<Rightarrow> 'a list" where
  "py_slice_to m s = (if 0 \<le> m then take (nat m) s else take (nat (int (length s) + m)) s)"

text \<open>\<open>str(n)\<close> of an integer: the decimal digits, after a minus sign when negative.\<close>

fun str_nat :: "nat \<Rightarrow> string" where
  "str_nat n = (if n < 10 then [char_of (48 + n)] else str_nat (n div 10) @ [char_of (48 + n mod 10)])"

declare str_nat.simps [simp del]

definition str_int :: "int \<Rightarrow> string" where
  "str_int i = (if i < 0 then CHR ''-'' # str_nat (nat (- i)) else str_nat (nat i))"

text \<open>
  Lines 98 to 110 of \<open>create_safe_filename\<close>: the title is normalised, reduced to ASCII,
  cleaned by the two substitutions, stripped of hyphens and cut to \<open>max_length\<close>.
  \<open>unicodedata.normalize('NFKD', _)\<close> is the library's table and is taken as the parameter
  \<open>nfkd\<close>; whatever it returns, only its ASCII code points survive the encoding.
\<close>

definition safe_title :: "(string \<Rightarrow> string) \<Rightarrow> string \<Rightarrow> int \<Rightarrow> string" where
  "safe_title nfkd title max_length =
     (let title1 = filter is_ascii (nfkd title);
          safe_chars1 = filter (\<lambda>c. re_word c \<or> py_isspace c \<or> c = CHR ''-'') title1;
          safe_chars2 = collapse_hyphens safe_chars1;
          safe_chars3 = strip_hyphens safe_chars2
      in if int (length safe_chars3) > max_length
         then rstrip_hyphens (py_slice_to max_length safe_chars3)
         else safe_chars3)"

text \<open>
  \<open>create_safe_filename(title, url, max_length=100)\<close>. The title is \<open>Optional[str]\<close>;
  \<open>not title\<close> holds for \<open>None\<close> and for the empty string. Python's built-in \<open>hash\<close> is
  seeded per process and is taken as the parameter \<open>hash\<close>.
\<close>

definition create_safe_filename ::
  "(string \<Rightarrow> string) \<Rightarrow> (string \<Rightarrow> int) \<Rightarrow> string option \<Rightarrow> string \<Rightarrow> int \<Rightarrow> string" where
  "create_safe_filename nfkd hash title url max_length =
     (if title = None \<or> title = Some []
      then str_int (hash url) @ ''.md''
      else
        let safe_chars = safe_title nfkd (the title) max_length;
            url_hash = take 8 (str_int (abs (hash url)))
        in if safe_chars = [] then ''untitled_'' @ url_hash @ ''.md''
           else safe_chars @ ''_'' @ url_hash @ ''.md'')"

text \<open>The characters that the repository's tests forbid in a file name: the two path
  separators and the characters reserved by common file systems.\<close>

definition reserved_chars :: "char list" where
  "reserved_chars =
     [CHR ''/'', CHR 0x5C, CHR '':'', CHR ''*'', CHR ''?'', CHR 0x22, CHR ''<'', CHR ''>'', CHR ''|'']"

text \<open>The characters a generated file name is made of: ASCII letters, digits, underscore,
  hyphen and dot.\<close>

definition name_char :: "char \<Rightarrow> bool" where
  "name_char c = (is_ascii c \<and> re_word c \<or> c = CHR ''-'' \<or> c = CHR ''.'')"

text \<open>Sample values of the two parameters: NFKD leaves ASCII text as it is, and 42 is a
  possible hash value.\<close>

definition nfkd_of_ascii :: "string \<Rightarrow> string" where
  "nfkd_of_ascii s = s"

definition hash_42 :: "string \<Rightarrow> int" where
  "hash_42 url = 42"

section \<open>URL classes\<close>

text \<open>\<open>s.lower()\<close> on code points below 256: the ASCII capitals and the Latin-1 capitals
  (0xC0 to 0xDE, without the multiplication sign 0xD7) move up by 32.\<close>

definition py_lower_char :: "char \<Rightarrow> char" where
  "py_lower_char c =
     (let n = (of_char c :: nat)
      in if (65 \<le> n \<and> n \<le> 90) \<or> (192 \<le> n \<and> n \<le> 222 \<and> n \<noteq> 215) then char_of (n + 32) else c)"

definition py_lower :: "string \<Rightarrow> string" where
  "py_lower s = map py_lower_char s"

text \<open>
  The patterns of \<open>should_skip_url\<close>, in the order of the source. A pattern \<open>\.png$\<close> is a
  literal followed by \<open>$\<close>, which matches at the end of the string and before a final line
  break; the other patterns are literals searched anywhere.
\<close>

datatype skip_pattern = AtEnd string | Anywhere string

definition skip_patterns :: "skip_pattern list" where
  "skip_patterns =
     [AtEnd ''.png'', AtEnd ''.jpg'', AtEnd ''.jpeg'', AtEnd ''.gif'', AtEnd ''.webp'',
      Anywhere ''twitter.com'', Anywhere ''x.com'',
      Anywhere ''linkedin.com'',
      Anywhere ''facebook.com'',
      Anywhere ''instagram.com'',
      Anywhere ''youtube.com'',
      Anywhere ''substackcdn.com'']"

fun re_search_skip :: "skip_pattern \<Rightarrow> string \<Rightarrow> bool" where
  "re_search_skip (AtEnd p) s = (suffix p s \<or> suffix (p @ [NL]) s)"
| "re_search_skip (Anywhere p) s = contains p s"

text \<open>The exceptions that the modelled code raises, and \<open>str(e)\<close>.\<close>

datatype exn = Exception string | NameError string | ValueError string

fun str_exn :: "exn \<Rightarrow> string" where
  "str_exn (Exception msg) = msg"
| "str_exn (ValueError msg) = msg"
| "str_exn (NameError name) = ''name '' @ [CHR 0x27] @ name @ [CHR 0x27] @ '' is not defined''"

text \<open>Lines 126 to 136 of \<open>should_skip_url\<close>: some pattern is found in the lowered URL.\<close>

definition matches_skip_pattern :: "string \<Rightarrow> bool" where
  "matches_skip_pattern url =
     list_ex (\<lambda>pattern. re_search_skip pattern (py_lower url)) skip_patterns"

text \<open>
  \<open>should_skip_url(url)\<close>. Line 123 calls \<open>urlparse(url)\<close> first. Its result is not used, but
  the call raises \<open>ValueError\<close> on some strings, for one on a host with an opening bracket
  that is never closed. \<open>urlparse\<close> is the library's and is a parameter here: \<open>urlparse url\<close>
  is the message of the \<open>ValueError\<close> when the call raises, and \<open>None\<close> when it returns.
\<close>

definition should_skip_url :: "(string \<Rightarrow> string option) \<Rightarrow> string \<Rightarrow> exn + bool" where
  "should_skip_url urlparse url =
     (case urlparse url of
        Some msg \<Rightarrow> Inl (ValueError msg)
      | None \<Rightarrow> Inr (matches_skip_pattern url))"

text \<open>
  Sample values of the parameter: a \<open>urlparse\<close> that accepts every string, and one that
  raises on the strings with an opening bracket and no closing one. The library raises
  \<open>ValueError\<close> with this message when the host part has such a bracket, as in
  \<open>http://[::1\<close>.
\<close>

definition urlparse_accepts :: "string \<Rightarrow> string option" where
  "urlparse_accepts url = None"

definition urlparse_brackets :: "string \<Rightarrow> string option" where
  "urlparse_brackets url =
     (if List.member url CHR ''['' \<and> \<not> List.member url CHR '']'' then Some ''Invalid IPv6 URL''
      else None)"

text \<open>The class \<open>\d\<close> on code points below 256: the ten ASCII digits.\<close>

definition is_digit :: "char \<Rightarrow> bool" where
  "is_digit c = (let n = (of_char c :: nat) in 48 \<le> n \<and> n \<le> 57)"

text \<open>The group \<open>(\d+\.\d+)\<close> at the head of a string: the group and the rest. Both runs of
  digits are maximal, since the pattern continues with a character that is not a digit.\<close>

definition match_paper_id :: "string \<Rightarrow> (string \<times> string) option" where
  "match_paper_id s =
     (let d1 = takeWhile is_digit s; r1 = dropWhile is_digit s
      in if d1 = [] then None
         else (case r1 of
                 [] \<Rightarrow> None
               | c # r2 \<Rightarrow>
                   if c \<noteq> CHR ''.'' then None
                   else let d2 = takeWhile is_digit r2; r3 = dropWhile is_digit r2
                        in if d2 = [] then None else Some (d1 @ ''.'' @ d2, r3)))"

text \<open>The optional group \<open>(v\d+)?\<close> at the head of a string: the group (empty when it does
  not take part in the match) and the rest.\<close>

definition match_version :: "string \<Rightarrow> string \<times> string" where
  "match_version s =
     (case s of
        [] \<Rightarrow> ([], s)
      | c # r \<Rightarrow>
          if c = CHR ''v'' \<and> takeWhile is_digit r \<noteq> []
          then (c # takeWhile is_digit r, dropWhile is_digit r)
          else ([], s))"

text \<open>
  The three patterns of \<open>transform_arxiv_url\<close>, each as the literal before the two groups and
  the literal after them: \<open>arxiv\.org/abs/(\d+\.\d+)(v\d+)?\<close>,
  \<open>arxiv\.org/pdf/(\d+\.\d+)(v\d+)?\.pdf\<close> and \<open>arxiv\.org/html/(\d+\.\d+)(v\d+)?\<close>.
\<close>

definition arxiv_patterns :: "(string \<times> string) list" where
  "arxiv_patterns =
     [(''arxiv.org/abs/'', ''''), (''arxiv.org/pdf/'', ''.pdf''), (''arxiv.org/html/'', '''')]"

text \<open>One pattern matched at the head of a string: the groups \<open>(paper_id, version)\<close>.\<close>

definition match_arxiv_here :: "string \<times> string \<Rightarrow> string \<Rightarrow> (string \<times> string) option" where
  "match_arxiv_here pat s =
     (if \<not> prefix (fst pat) s then None
      else (case match_paper_id (drop (length (fst pat)) s) of
              None \<Rightarrow> None
            | Some (paper_id, r) \<Rightarrow>
                (case match_version r of
                   (version, r') \<Rightarrow> if prefix (snd pat) r' then Some (paper_id, version) else None)))"

text \<open>\<open>re.search(pattern, url)\<close>: the leftmost position where the pattern matches.\<close>

fun re_search_arxiv :: "string \<times> string \<Rightarrow> string \<Rightarrow> (string \<times> string) option" where
  "re_search_arxiv pat [] = match_arxiv_here pat []"
| "re_search_arxiv pat (c # cs) =
     (case match_arxiv_here pat (c # cs) of
        Some m \<Rightarrow> Some m
      | None \<Rightarrow> re_search_arxiv pat cs)"

text \<open>The loop of \<open>transform_arxiv_url\<close> over the patterns: the first pattern that matches
  decides.\<close>

fun first_arxiv_match :: "(string \<times> string) list \<Rightarrow> string \<Rightarrow> (string \<times> string) option" where
  "first_arxiv_match [] url = None"
| "first_arxiv_match (pat # pats) url =
     (case re_search_arxiv pat url of
        Some m \<Rightarrow> Some m
      | None \<Rightarrow> first_arxiv_match pats url)"

definition transform_arxiv_url :: "string \<Rightarrow> string" where
  "transform_arxiv_url url =
     (case first_arxiv_match arxiv_patterns url of
        Some (paper_id, version) \<Rightarrow> ''https://arxiv.org/pdf/'' @ paper_id @ version @ ''.pdf''
      | None \<Rightarrow> url)"

definition is_pdf_url :: "string \<Rightarrow> bool" where
  "is_pdf_url url = (suffix ''.pdf'' (py_lower url) \<or> contains ''arxiv.org/pdf'' (py_lower url))"

section \<open>Settings\<close>

definition RATE_LIMIT :: nat where
  "RATE_LIMIT = 15"

definition RATE_PERIOD :: nat where
  "RATE_PERIOD = 60"

definition MAX_RETRIES :: nat where
  "MAX_RETRIES = 3"

definition RETRY_DELAY :: nat where
  "RETRY_DELAY = 5"

definition PDF_TIMEOUT :: nat where
  "PDF_TIMEOUT = 60"

definition DEFAULT_TIMEOUT :: nat where
  "DEFAULT_TIMEOUT = 30"

section \<open>Job progress\<close>

text \<open>One entry of \<open>progress_tracker\<close>, with the fields of the default factory (line 203).
  The counters start at 0 and are only ever set or incremented, so they are naturals.\<close>

record progress =
  total :: nat
  task :: "unit option"
  cancelled :: bool
  processed :: nat
  successful :: nat
  potential_successful :: nat
  skipped :: nat
  failed :: nat
  current_url :: string

definition default_progress :: progress where
  "default_progress =
     \<lparr>total = 0, task = None, cancelled = False, processed = 0, successful = 0,
      potential_successful = 0, skipped = 0, failed = 0, current_url = []\<rparr>"

text \<open>
  \<open>progress_tracker\<close> is a \<open>defaultdict\<close> keyed by the tracker key: reading a missing key
  gives the default record (and stores it), so a write to a field of a missing record
  creates the record first.
\<close>

type_synonym tracker = "string \<rightharpoonup> progress"

definition tracker_get :: "tracker \<Rightarrow> string \<Rightarrow> progress" where
  "tracker_get pt k = (case pt k of None \<Rightarrow> default_progress | Some p \<Rightarrow> p)"

text \<open>The writes that the source makes to one record.\<close>

datatype mutation =
    SetCurrentUrl string
  | IncProcessed
  | IncSkipped
  | IncPotentialSuccessful
  | IncFailed
  | SetTotal nat
  | SetProcessed nat
  | SetSuccessful nat
  | IncSuccessful

fun apply_mutation :: "mutation \<Rightarrow> progress \<Rightarrow> progress" where
  "apply_mutation (SetCurrentUrl u) p = p\<lparr>current_url := u\<rparr>"
| "apply_mutation IncProcessed p = p\<lparr>processed := processed p + 1\<rparr>"
| "apply_mutation IncSkipped p = p\<lparr>skipped := skipped p + 1\<rparr>"
| "apply_mutation IncPotentialSuccessful p = p\<lparr>potential_successful := potential_successful p + 1\<rparr>"
| "apply_mutation IncFailed p = p\<lparr>failed := failed p + 1\<rparr>"
| "apply_mutation (SetTotal n) p = p\<lparr>total := n\<rparr>"
| "apply_mutation (SetProcessed n) p = p\<lparr>processed := n\<rparr>"
| "apply_mutation (SetSuccessful n) p = p\<lparr>successful := n\<rparr>"
| "apply_mutation IncSuccessful p = p\<lparr>successful := successful p + 1\<rparr>"

definition mutate :: "string \<Rightarrow> mutation \<Rightarrow> tracker \<Rightarrow> tracker" where
  "mutate k m pt = pt(k \<mapsto> apply_mutation m (tracker_get pt k))"

section \<open>Fetching one URL\<close>

text \<open>
  What a coroutine does to the world, in order: a write to its job's progress record, a
  call of \<open>acquire_rate_limit\<close>, a request \<open>client.get(url, timeout)\<close>, a sleep of so many
  seconds. No branch of \<open>get_markdown_content\<close> reads the progress record, so the effects of
  a call do not depend on the tracker it runs against.
\<close>

datatype effect =
    Mut mutation
  | AcquireRateLimit
  | Get string nat
  | Sleep nat

fun exec_effect :: "string \<Rightarrow> effect \<Rightarrow> tracker \<Rightarrow> tracker" where
  "exec_effect k (Mut m) pt = mutate k m pt"
| "exec_effect k AcquireRateLimit pt = pt"
| "exec_effect k (Get u t) pt = pt"
| "exec_effect k (Sleep d) pt = pt"

fun run_effects :: "string \<Rightarrow> effect list \<Rightarrow> tracker \<Rightarrow> tracker" where
  "run_effects k [] pt = pt"
| "run_effects k (e # es) pt = run_effects k es (exec_effect k e pt)"

fun is_request :: "effect \<Rightarrow> bool" where
  "is_request (Get u t) = True"
| "is_request e = False"

fun is_sleep :: "effect \<Rightarrow> bool" where
  "is_sleep (Sleep d) = True"
| "is_sleep e = False"

text \<open>What \<open>await client.get(...)\<close> gives: a response with its status code and text, or an
  exception with its message \<open>str(e)\<close>.\<close>

datatype response = Response int string | RequestError string

text \<open>
  The body of the \<open>try\<close> (lines 253 to 289) for one response, with \<open>retries\<close> as it stands
  at the top of the iteration: content accepted, the \<open>continue\<close> of the 429 branch (with the
  incremented counter), or an exception raised (with the counter as it stands then, and the
  message).
\<close>

datatype attempt_outcome = Fetched string | Backoff nat | Raised nat string

definition attempt :: "nat \<Rightarrow> response \<Rightarrow> attempt_outcome" where
  "attempt retries resp =
     (case resp of
        RequestError e \<Rightarrow> Raised retries e
      | Response status_code text \<Rightarrow>
          if status_code = 200 then
            (let content = py_strip text
             in if too_short content then Raised retries ''Retrieved content too short or empty''
                else if only_metadata (split_nl content)
                then Raised retries ''Retrieved content contains only metadata''
                else Fetched content)
          else if status_code = 429 \<and> retries + 1 \<le> MAX_RETRIES then Backoff (retries + 1)
          else Raised (if status_code = 429 then retries + 1 else retries)
                 (''Failed to get content: '' @ str_int status_code))"

text \<open>
  The \<open>except\<close> block (lines 291 to 301): the counter after the increment when the loop
  continues (after a sleep), \<open>None\<close> when it breaks.
\<close>

definition on_exception :: "nat \<Rightarrow> string \<Rightarrow> nat option" where
  "on_exception retries e =
     (if retries + 1 \<le> MAX_RETRIES
         \<and> (contains ''429'' e \<or> contains ''too short'' e \<or> contains ''only metadata'' e)
      then Some (retries + 1) else None)"

text \<open>
  The \<open>while\<close> loop of \<open>get_markdown_content\<close> with what follows it. \<open>responses n\<close> is the
  answer to the \<open>n\<close>-th request of this call, \<open>jina_url\<close> and \<open>timeout\<close> are fixed before the
  loop. The result is the effects from here on and the content returned.
\<close>

function fetch_loop :: "string \<Rightarrow> nat \<Rightarrow> (nat \<Rightarrow> response) \<Rightarrow> nat \<Rightarrow> nat \<Rightarrow> effect list \<times> string" where
  "fetch_loop jina_url timeout responses n retries =
     (if retries \<le> MAX_RETRIES then
        (case attempt retries (responses n) of
           Fetched content \<Rightarrow>
             ([AcquireRateLimit, Get jina_url timeout, Mut IncProcessed, Mut IncPotentialSuccessful],
              content)
         | Backoff retries' \<Rightarrow>
             (case fetch_loop jina_url timeout responses (n + 1) retries' of
                (effs, content) \<Rightarrow>
                  (AcquireRateLimit # Get jina_url timeout # Sleep (RETRY_DELAY * retries') # effs,
                   content))
         | Raised r e \<Rightarrow>
             (case on_exception r e of
                Some retries' \<Rightarrow>
                  (case fetch_loop jina_url timeout responses (n + 1) retries' of
                     (effs, content) \<Rightarrow>
                       (AcquireRateLimit # Get jina_url timeout # Sleep (RETRY_DELAY * retries') # effs,
                        content))
              | None \<Rightarrow>
                  ([AcquireRateLimit, Get jina_url timeout, Mut IncProcessed, Mut IncFailed], [])))
      else ([Mut IncProcessed, Mut IncFailed], []))"
  by pat_completeness auto
termination
proof (relation "measure (\<lambda>(jina_url, timeout, responses, n, retries). MAX_RETRIES + 1 - retries)")
  show "wf (measure (\<lambda>(jina_url, timeout, responses, n, retries). MAX_RETRIES + 1 - retries))"
    by simp
next
  fix jina_url :: string and timeout :: nat and responses :: "nat \<Rightarrow> response"
    and n retries retries' :: nat
  assume "retries \<le> MAX_RETRIES" and "attempt retries (responses n) = Backoff retries'"
  then have "retries' = retries + 1"
    by (auto simp: attempt_def Let_def split: response.splits if_splits)
  with \<open>retries \<le> MAX_RETRIES\<close>
  show "((jina_url, timeout, responses, n + 1, retries'), (jina_url, timeout, responses, n, retries))
        \<in> measure (\<lambda>(jina_url, timeout, responses, n, retries). MAX_RETRIES + 1 - retries)"
    by simp
next
  fix jina_url :: string and timeout :: nat and responses :: "nat \<Rightarrow> response"
    and n retries r retries' :: nat and e :: string
  assume le: "retries \<le> MAX_RETRIES" and "attempt retries (responses n) = Raised r e"
    and "on_exception r e = Some retries'"
  then have "retries \<le> r" and "retries' = r + 1"
    by (auto simp: attempt_def on_exception_def Let_def split: response.splits if_splits)
  with le
  show "((jina_url, timeout, responses, n + 1, retries'), (jina_url, timeout, responses, n, retries))
        \<in> measure (\<lambda>(jina_url, timeout, responses, n, retries). MAX_RETRIES + 1 - retries)"
    by simp
qed


declare fetch_loop.simps [simp del]

text \<open>
  \<open>get_markdown_content(url, client, tracker_id)\<close>: the effects of the call on its job and
  on the network, and what it returns: the pair, or the exception of \<open>should_skip_url\<close>,
  which is called outside the \<open>try\<close> and after the write of line 228. The extraction
  service is the parameter \<open>responses\<close>.
\<close>

definition get_markdown_content ::
  "(string \<Rightarrow> string option) \<Rightarrow> string \<Rightarrow> (nat \<Rightarrow> response)
     \<Rightarrow> effect list \<times> (exn + string \<times> string)" where
  "get_markdown_content urlparse url responses =
     (case should_skip_url urlparse url of
        Inl e \<Rightarrow> ([Mut (SetCurrentUrl url)], Inl e)
      | Inr skip \<Rightarrow>
          if skip
          then ([Mut (SetCurrentUrl url), Mut IncProcessed, Mut IncSkipped], Inr (url, []))
          else
            let transformed_url = transform_arxiv_url url;
                timeout = (if is_pdf_url transformed_url then PDF_TIMEOUT else DEFAULT_TIMEOUT);
                jina_url = ''https://r.jina.ai/'' @ transformed_url
            in (case fetch_loop jina_url timeout responses 0 0 of
                  (effs, content) \<Rightarrow> (Mut (SetCurrentUrl url) # effs, Inr (url, content))))"

text \<open>An extraction service that gives the same answer to every request, and a page text
  that passes both validation checks.\<close>

definition always :: "response \<Rightarrow> nat \<Rightarrow> response" where
  "always r n = r"

definition sample_page :: string where
  "sample_page = replicate 50 CHR ''a'' @ [NL, CHR ''b'', NL, CHR ''c'', NL, CHR ''d'']"

text \<open>
  A fetch whose job record is removed from the tracker while the fetch is in flight: after
  the first \<open>n\<close> effects of the fetch the record of the key is deleted, then the fetch goes
  on.
\<close>

definition run_with_removal :: "string \<Rightarrow> nat \<Rightarrow> effect list \<Rightarrow> tracker \<Rightarrow> tracker" where
  "run_with_removal k n es pt =
     run_effects k (drop n es) ((run_effects k (take n es) pt)(k := None))"

section \<open>The rate limiter\<close>

text \<open>
  \<open>acquire_rate_limit\<close> runs between two suspension points without interruption: it reads
  the clock, trims \<open>last_request_times\<close> and then either appends the time read and returns,
  or sleeps and calls itself again. One such evaluation is a step on the global list. Time
  is a real number of seconds.
\<close>

datatype admission = Admitted | Suspended real

definition acquire_step :: "real \<Rightarrow> real list \<Rightarrow> real list \<times> admission" where
  "acquire_step now last_request_times =
     (let lrt = filter (\<lambda>t. now - t < real RATE_PERIOD) last_request_times
      in if length lrt \<ge> RATE_LIMIT
         then (let sleep_time = real RATE_PERIOD - (now - hd lrt)
               in if sleep_time > 0 then (lrt, Suspended sleep_time)
                  else (lrt @ [now], Admitted))
         else (lrt @ [now], Admitted))"

text \<open>
  All callers share one event loop, so an execution with any number of concurrent callers
  is a sequence of such steps, one per evaluation, at the clock values read. A run keeps the
  global list and the log of the admissions made.
\<close>

fun acquire_run :: "real list \<Rightarrow> real list \<Rightarrow> real list \<Rightarrow> real list \<times> real list" where
  "acquire_run [] last_request_times admitted = (last_request_times, admitted)"
| "acquire_run (now # ticks) last_request_times admitted =
     (case acquire_step now last_request_times of
        (lrt, Admitted) \<Rightarrow> acquire_run ticks lrt (admitted @ [now])
      | (lrt, Suspended d) \<Rightarrow> acquire_run ticks lrt admitted)"

text \<open>The admissions of a run that starts with the empty list of the module (line 32).\<close>

definition admissions :: "real list \<Rightarrow> real list" where
  "admissions ticks = snd (acquire_run ticks [] [])"

text \<open>The admissions that fall into the window of \<open>RATE_PERIOD\<close> seconds starting at \<open>a\<close>.\<close>

definition in_window :: "real \<Rightarrow> real list \<Rightarrow> real list" where
  "in_window a admitted = filter (\<lambda>t. a \<le> t \<and> t < a + real RATE_PERIOD) admitted"

text \<open>The invariant of a run: the global list is the log trimmed at the last clock value,
  no admission lies in the future, and every window holds at most \<open>RATE_LIMIT\<close> admissions.\<close>

definition limiter_inv :: "real \<Rightarrow> real list \<Rightarrow> real list \<Rightarrow> bool" where
  "limiter_inv now0 lrt admitted =
     (lrt = filter (\<lambda>t. now0 - t < real RATE_PERIOD) admitted
      \<and> (\<forall>t \<in> set admitted. t \<le> now0)
      \<and> (\<forall>a. length (in_window a admitted) \<le> RATE_LIMIT))"

section \<open>Titles\<close>

text \<open>
  One match of \<open>\[([^\]]+)\]\([^\)]+\)\<close> at the head of a string: the group and the rest
  after the match. Both character classes are followed by the one character they exclude, so
  each run is maximal.
\<close>

definition match_link :: "string \<Rightarrow> (string \<times> string) option" where
  "match_link s =
     (case s of
        [] \<Rightarrow> None
      | c # r1 \<Rightarrow>
          if c \<noteq> CHR ''['' then None
          else let g = takeWhile (\<lambda>x. x \<noteq> CHR '']'') r1;
                   r2 = dropWhile (\<lambda>x. x \<noteq> CHR '']'') r1
               in if g = [] then None
                  else if \<not> prefix '']('' r2 then None
                  else let h = takeWhile (\<lambda>x. x \<noteq> CHR '')'') (drop 2 r2);
                           r3 = dropWhile (\<lambda>x. x \<noteq> CHR '')'') (drop 2 r2)
                       in if h = [] then None
                          else (case r3 of [] \<Rightarrow> None | d # r4 \<Rightarrow> Some (g, r4)))"

text \<open>\<open>re.sub(r'\[([^\]]+)\]\([^\)]+\)', r'\1', title)\<close>: the matches, leftmost first and
  not overlapping, are replaced by their group.\<close>

function sub_links :: "string \<Rightarrow> string" where
  "sub_links [] = []"
| "sub_links (c # cs) =
     (case match_link (c # cs) of
        Some (g, rest) \<Rightarrow> g @ sub_links rest
      | None \<Rightarrow> c # sub_links cs)"
  by pat_completeness auto
termination
proof (relation "measure length")
  show "wf (measure length)" by simp
next
  fix c :: char and cs x2 g rest :: string and p :: "string \<times> string"
  assume m: "match_link (c # cs) = Some p" and "(g, rest) = p"
  then have "match_link (c # cs) = Some (g, rest)" by simp
  then obtain r3 d where "r3 = d # rest"
    and "r3 = dropWhile (\<lambda>x. x \<noteq> CHR '')'') (drop 2 (dropWhile (\<lambda>x. x \<noteq> CHR '']'') cs))"
    by (auto simp: match_link_def Let_def split: if_splits list.splits)
  then have "length (d # rest) \<le> length (drop 2 (dropWhile (\<lambda>x. x \<noteq> CHR '']'') cs))"
    by (metis length_dropWhile_le)
  also have "\<dots> \<le> length (dropWhile (\<lambda>x. x \<noteq> CHR '']'') cs)" by simp
  also have "\<dots> \<le> length cs" by (rule length_dropWhile_le)
  finally have "length rest < length (c # cs)" by simp
  then show "(rest, c # cs) \<in> measure length" by simp
next
  fix c :: char and cs :: string
  show "(cs, c # cs) \<in> measure length" by simp
qed

text \<open>\<open>re.sub(r'[*_`]', '', title)\<close>.\<close>

definition sub_emphasis :: "string \<Rightarrow> string" where
  "sub_emphasis s = filter (\<lambda>c. c \<noteq> CHR ''*'' \<and> c \<noteq> CHR ''_'' \<and> c \<noteq> CHR 0x60) s"

text \<open>The heading branch of both loops: a line that starts with the marker and is longer
  than it gives its cleaned rest as the title, when that has more than three characters.\<close>

definition heading_title :: "string \<Rightarrow> string \<Rightarrow> string option" where
  "heading_title marker line =
     (if prefix marker line \<and> length line > length marker
      then (let title = sub_emphasis (sub_links (py_strip (drop (length marker) line)))
            in if title \<noteq> [] \<and> length title > 3 then Some title else None)
      else None)"

text \<open>The \<open>Title:\<close> branch of the first loop.\<close>

definition title_field :: "string \<Rightarrow> string option" where
  "title_field line =
     (if prefix ''Title:'' line \<and> length line > 7
      then (let title = py_strip (drop 6 line) in if title \<noteq> [] then Some title else None)
      else None)"

text \<open>The first loop of \<open>extract_title_from_content\<close> (lines 47 to 73).\<close>

fun scan_h1 :: "string list \<Rightarrow> string option" where
  "scan_h1 [] = None"
| "scan_h1 (l # ls) =
     (let line = py_strip l
      in if line = [] then scan_h1 ls
         else if startswith_any [''URL Source:'', ''Markdown Content:'', ''# Original URL:'', ''Published:''] line
         then scan_h1 ls
         else (case heading_title ''# '' line of
                 Some title \<Rightarrow> Some title
               | None \<Rightarrow>
                   (case title_field line of
                      Some title \<Rightarrow> Some title
                    | None \<Rightarrow> scan_h1 ls)))"

text \<open>The second loop (lines 76 to 85).\<close>

fun scan_h2 :: "string list \<Rightarrow> string option" where
  "scan_h2 [] = None"
| "scan_h2 (l # ls) =
     (case heading_title ''## '' (py_strip l) of
        Some title \<Rightarrow> Some title
      | None \<Rightarrow> scan_h2 ls)"

definition extract_title_from_content :: "string \<Rightarrow> string option" where
  "extract_title_from_content content =
     (if content = [] then None
      else let lines = split_nl content
           in (case scan_h1 (take 30 lines) of
                 Some title \<Rightarrow> Some title
               | None \<Rightarrow> scan_h2 (take 30 lines)))"

section \<open>Building the archive\<close>

text \<open>
  The file system as far as \<open>create_zip_file\<close> uses it: directories, each with its files
  (name and text), and ZIP archives, each with its entries, both keyed by their path.
\<close>

record filesystem =
  dirs :: "string \<rightharpoonup> (string \<times> string) list"
  zips :: "string \<rightharpoonup> (string \<times> string) list"

text \<open>
  The body of the loop (lines 342 to 364) for one pair: nothing for empty content, a
  rejection, or a file written under its name with its text. \<open>create_safe_filename\<close> is
  called with the default \<open>max_length\<close> of 100.
\<close>

datatype entry_action = NoContent | Rejected | Written string string

definition entry_action :: "(string \<Rightarrow> string) \<Rightarrow> (string \<Rightarrow> int) \<Rightarrow> string \<times> string \<Rightarrow> entry_action" where
  "entry_action nfkd hash pair =
     (case pair of (url, content) \<Rightarrow>
        if content = [] then NoContent
        else if archive_rejects content then Rejected
        else Written (create_safe_filename nfkd hash (extract_title_from_content content) url 100)
               (''# Original URL: '' @ url @ [NL, NL] @ content))"

fun action_effects :: "entry_action \<Rightarrow> effect list" where
  "action_effects NoContent = []"
| "action_effects Rejected = [Mut IncFailed]"
| "action_effects (Written name body) = [Mut IncSuccessful]"

fun action_write :: "entry_action \<Rightarrow> (string \<times> string) list \<Rightarrow> (string \<times> string) list" where
  "action_write (Written name body) files = AList.update name body files"
| "action_write a files = files"

fun is_written :: "entry_action \<Rightarrow> bool" where
  "is_written (Written name body) = True"
| "is_written a = False"

text \<open>The writes of \<open>create_zip_file\<close> to the progress record, in order: the reset of line
  338 and the increments of the loop.\<close>

definition archive_effects :: "(string \<Rightarrow> string) \<Rightarrow> (string \<Rightarrow> int) \<Rightarrow> (string \<times> string) list \<Rightarrow> effect list" where
  "archive_effects nfkd hash contents =
     Mut (SetSuccessful 0) # concat (map (\<lambda>pair. action_effects (entry_action nfkd hash pair)) contents)"

text \<open>
  \<open>create_zip_file(contents, job_id, tracker_id)\<close> on the tracker and the file system.
  \<open>tmp\<close> is \<open>tempfile.gettempdir()\<close>; the job id is taken to hold no path separator, so the
  directory is \<open>tmp/job_id\<close> and the archive \<open>tmp/job_id.zip\<close>. Failures of the file system
  itself (a full disk, missing permissions) are outside the model.
\<close>

definition create_zip_file ::
  "string \<Rightarrow> (string \<Rightarrow> string) \<Rightarrow> (string \<Rightarrow> int) \<Rightarrow> (string \<times> string) list \<Rightarrow> string \<Rightarrow> string
     \<Rightarrow> tracker \<times> filesystem \<Rightarrow> (exn + string) \<times> tracker \<times> filesystem" where
  "create_zip_file tmp nfkd hash contents job_id tracker_id state =
     (case state of (pt, fs) \<Rightarrow>
        let temp_dir = tmp @ ''/'' @ job_id;
            existing = (case dirs fs temp_dir of None \<Rightarrow> [] | Some files \<Rightarrow> files);
            actions = map (entry_action nfkd hash) contents;
            pt' = run_effects tracker_id (archive_effects nfkd hash contents) pt;
            files = fold action_write actions existing;
            fs' = fs\<lparr>dirs := (dirs fs)(temp_dir \<mapsto> files)\<rparr>;
            file_count = length (filter is_written actions)
        in if file_count = 0 then (Inl (Exception ''No valid content to download''), pt', fs')
           else
             let zip_path = tmp @ ''/'' @ job_id @ ''.zip'';
                 entries = filter (\<lambda>(name, body). suffix ''.md'' name) files
             in (Inr zip_path, pt',
                 fs\<lparr>dirs := (dirs fs)(temp_dir := None), zips := (zips fs)(zip_path \<mapsto> entries)\<rparr>))"

section \<open>The crawl\<close>

text \<open>The process-wide state that a crawl works on.\<close>

record world =
  progress_tracker :: tracker
  results_tracker :: "string \<rightharpoonup> string"
  files :: filesystem

text \<open>\<open>ScrapeResponse\<close> (line 219) and the \<open>HTTPException\<close> of FastAPI with its status code
  and detail.\<close>

record scrape_response =
  links :: "string list"
  jobId :: string
  successful_count :: nat
  skipped_count :: nat
  failed_count :: nat

datatype http_error = HTTPException nat string

text \<open>
  Lines 438 to 441: of the \<open>href\<close> values of the anchors, in document order, those that
  start with \<open>http\<close> and for which \<open>should_skip_url\<close> returns \<open>False\<close>. \<open>should_skip_url\<close> is
  called only for the values that start with \<open>http\<close>; the first call that raises ends the
  comprehension with its exception.
\<close>

fun discover_links :: "(string \<Rightarrow> string option) \<Rightarrow> string list \<Rightarrow> exn + string list" where
  "discover_links urlparse [] = Inr []"
| "discover_links urlparse (href # hrefs) =
     (if prefix ''http'' href
      then (case should_skip_url urlparse href of
              Inl e \<Rightarrow> Inl e
            | Inr skip \<Rightarrow>
                (case discover_links urlparse hrefs of
                   Inl e \<Rightarrow> Inl e
                 | Inr found \<Rightarrow> Inr (if skip then found else href # found)))
      else discover_links urlparse hrefs)"

text \<open>The two classes of anchor targets that a seed page is described by: the absolute
  ones that match no skip pattern, and the ones that match one.\<close>

definition valid_link :: "string \<Rightarrow> bool" where
  "valid_link href = (prefix ''http'' href \<and> \<not> matches_skip_pattern href)"

text \<open>
  The coroutines of one \<open>asyncio.gather\<close> run on one event loop and take turns. An
  interleaving of their effects is chosen by a schedule: the list of the indices of the task
  that makes the next effect; what is left when the schedule ends runs task by task. Every
  order in which the event loop can run the tasks is the interleaving of some schedule.
\<close>

fun interleave :: "nat list \<Rightarrow> 'a list list \<Rightarrow> 'a list" where
  "interleave [] tasks = concat tasks"
| "interleave (i # sched) tasks =
     (if i < length tasks
      then (case tasks ! i of
              [] \<Rightarrow> interleave sched tasks
            | e # es \<Rightarrow> e # interleave sched (tasks[i := es]))
      else interleave sched tasks)"

text \<open>\<open>links[i:i + batch_size]\<close> for \<open>i\<close> in \<open>range(0, len(links), batch_size)\<close>.\<close>

function batches :: "nat \<Rightarrow> 'a list \<Rightarrow> 'a list list" where
  "batches batch_size xs =
     (if batch_size = 0 \<or> xs = [] then []
      else take batch_size xs # batches batch_size (drop batch_size xs))"
  by pat_completeness auto
termination
  by (relation "measure (\<lambda>(batch_size, xs). length xs)") auto

declare batches.simps [simp del]

text \<open>\<open>await asyncio.gather(*tasks)\<close> on the outcomes of the tasks: their results in the
  order of the tasks, or the exception of a task that raised.\<close>

fun gather :: "(exn + 'a) list \<Rightarrow> exn + 'a list" where
  "gather [] = Inr []"
| "gather (Inl e # rs) = Inl e"
| "gather (Inr x # rs) = (case gather rs of Inl e \<Rightarrow> Inl e | Inr xs \<Rightarrow> Inr (x # xs))"

text \<open>
  The loop over the batches (lines 450 to 461). \<open>net i\<close> answers the requests of the task
  with number \<open>i\<close>: 0 is the seed, the links follow in order. Each batch has its schedule;
  the results of a batch are in the order of its links, as \<open>gather\<close> returns them. Between
  two batches the crawl sleeps for half the rate period. An exception out of \<open>gather\<close> ends
  the loop; the links of a crawl have passed \<open>should_skip_url\<close> before, so none of their
  fetches raises.
\<close>

fun run_batches ::
  "(string \<Rightarrow> string option) \<Rightarrow> nat list list \<Rightarrow> string list list \<Rightarrow> nat
     \<Rightarrow> (nat \<Rightarrow> nat \<Rightarrow> response) \<Rightarrow> effect list \<times> (exn + (string \<times> string) list)" where
  "run_batches urlparse scheds [] i net = ([], Inr [])"
| "run_batches urlparse scheds (batch # rest) i net =
     (let tasks = map (\<lambda>(j, link). get_markdown_content urlparse link (net (i + j)))
                    (enumerate 0 batch);
          effs = interleave (case scheds of [] \<Rightarrow> [] | sched # _ \<Rightarrow> sched) (map fst tasks);
          pause = (if rest \<noteq> [] then [Sleep (RATE_PERIOD div 2)] else [])
      in (case gather (map snd tasks) of
            Inl e \<Rightarrow> (effs, Inl e)
          | Inr batch_results \<Rightarrow>
              (case run_batches urlparse (tl scheds) rest (i + length batch) net of
                 (effs', Inl e) \<Rightarrow> (effs @ pause @ effs', Inl e)
               | (effs', Inr results') \<Rightarrow>
                   (effs @ pause @ effs', Inr (batch_results @ results')))))"

text \<open>
  Everything \<open>scrape_url\<close> does up to the archive (lines 430 to 461): the effects, and either
  the message of the exception that ended it or the links found and the accumulated pairs.
  The seed is fetched first, on its own; then the page is fetched and its links are
  discovered; then the total and the processed count are set (lines 444 and 445); then the
  batches run. \<open>page\<close> is what \<open>client.get(url)\<close> with the HTML parser gives: the \<open>href\<close>
  values of the anchors, or the message of the exception raised.
\<close>

definition crawl ::
  "(string \<Rightarrow> string option) \<Rightarrow> string \<Rightarrow> string + string list \<Rightarrow> (nat \<Rightarrow> nat \<Rightarrow> response)
     \<Rightarrow> nat list list \<Rightarrow> effect list \<times> (string + string list \<times> (string \<times> string) list)" where
  "crawl urlparse url page net scheds =
     (case get_markdown_content urlparse url (net 0) of
        (effs0, Inl e) \<Rightarrow> (effs0, Inl (str_exn e))
      | (effs0, Inr original_content) \<Rightarrow>
          (case page of
             Inl msg \<Rightarrow> (effs0, Inl msg)
           | Inr hrefs \<Rightarrow>
               (case discover_links urlparse hrefs of
                  Inl e \<Rightarrow> (effs0, Inl (str_exn e))
                | Inr found \<Rightarrow>
                    (case run_batches urlparse scheds (batches 10 found) 1 net of
                       (effs, Inl e) \<Rightarrow>
                         (effs0 @ [Mut (SetTotal (length found + 1)), Mut (SetProcessed 1)] @ effs,
                          Inl (str_exn e))
                     | (effs, Inr results) \<Rightarrow>
                         (effs0 @ [Mut (SetTotal (length found + 1)), Mut (SetProcessed 1)] @ effs,
                          Inr (found, original_content # results))))))"

text \<open>
  \<open>scrape_url(request)\<close>. \<open>url\<close> is \<open>str(request.url)\<close>; the tracker key
  \<open>str(hash(str(request.url)))\<close> and the job id \<open>str(uuid4())\<close> come from the runtime and are
  parameters, as are the extraction service \<open>net\<close>, the schedules and the page. Any
  exception of the crawl is answered with the status 500 after the record of the key has
  been deleted (lines 485 to 492); an exception of \<open>create_zip_file\<close> is only logged.
\<close>

definition scrape_url ::
  "string \<Rightarrow> (string \<Rightarrow> string) \<Rightarrow> (string \<Rightarrow> int) \<Rightarrow> (string \<Rightarrow> string option) \<Rightarrow> string
     \<Rightarrow> string \<Rightarrow> string \<Rightarrow> (nat \<Rightarrow> nat \<Rightarrow> response) \<Rightarrow> nat list list \<Rightarrow> string + string list
     \<Rightarrow> world \<Rightarrow> (http_error + scrape_response) \<times> world" where
  "scrape_url tmp nfkd hash urlparse url tracker_id job_id net scheds page w =
     (case crawl urlparse url page net scheds of
        (effs, Inl msg) \<Rightarrow>
          (Inl (HTTPException 500 (''Error scraping URL: '' @ msg)),
           w\<lparr>progress_tracker :=
               (run_effects tracker_id effs (progress_tracker w))(tracker_id := None)\<rparr>)
      | (effs, Inr (found, results)) \<Rightarrow>
          (let pt1 = run_effects tracker_id effs (progress_tracker w)
           in (case create_zip_file tmp nfkd hash results job_id tracker_id (pt1, files w) of
                 (outcome, pt2, fs2) \<Rightarrow>
                   let rt = (case outcome of
                               Inr zip_path \<Rightarrow> (results_tracker w)(job_id \<mapsto> zip_path)
                             | Inl e \<Rightarrow> results_tracker w);
                       final_counts = tracker_get pt2 tracker_id
                   in (Inr \<lparr>links = url # found, jobId = job_id,
                             successful_count = successful final_counts,
                             skipped_count = skipped final_counts,
                             failed_count = failed final_counts\<rparr>,
                       \<lparr>progress_tracker = pt2(tracker_id := None), results_tracker = rt,
                        files = fs2\<rparr>))))"

text \<open>All the effects of one \<open>scrape_url\<close> call before it deletes the record of its key:
  those of the crawl and, when the crawl did not raise, those of \<open>create_zip_file\<close>.\<close>

definition scrape_effects ::
  "(string \<Rightarrow> string) \<Rightarrow> (string \<Rightarrow> int) \<Rightarrow> (string \<Rightarrow> string option) \<Rightarrow> string
     \<Rightarrow> (nat \<Rightarrow> nat \<Rightarrow> response) \<Rightarrow> nat list list \<Rightarrow> string + string list \<Rightarrow> effect list" where
  "scrape_effects nfkd hash urlparse url net scheds page =
     (case crawl urlparse url page net scheds of
        (effs, Inl msg) \<Rightarrow> effs
      | (effs, Inr (found, results)) \<Rightarrow> effs @ archive_effects nfkd hash results)"

text \<open>The record after each write among some effects.\<close>

fun snapshots :: "effect list \<Rightarrow> progress \<Rightarrow> progress list" where
  "snapshots [] p = []"
| "snapshots (Mut m # es) p = apply_mutation m p # snapshots es (apply_mutation m p)"
| "snapshots (e # es) p = snapshots es p"

text \<open>The sum of the three outcome counters of a record.\<close>

definition counted :: "progress \<Rightarrow> nat" where
  "counted p = potential_successful p + skipped p + failed p"

text \<open>\<open>download_results(job_id)\<close>: the path of the archive to send, or the 404. The clean-up
  task that it starts, five minutes later, is outside the model.\<close>

definition download_results :: "string \<Rightarrow> world \<Rightarrow> http_error + string" where
  "download_results job_id w =
     (case results_tracker w job_id of
        None \<Rightarrow> Inl (HTTPException 404 ''Results not found'')
      | Some zip_path \<Rightarrow> Inr zip_path)"

text \<open>
  \<open>cancel_scrape(tracker_id)\<close> (line 198) calls \<open>cancel_scraping\<close>, a name that no file of the
  repository defines: the call raises \<open>NameError\<close> and changes nothing.
\<close>

definition cancel_scrape :: "string \<Rightarrow> world \<Rightarrow> (exn + unit) \<times> world" where
  "cancel_scrape tracker_id w = (Inl (NameError ''cancel_scraping''), w)"

text \<open>
  The record of a tracker key is shared by every \<open>scrape_url\<close> call with that key: the key
  is the hash of the seed URL (line 424), so a second crawl of the same seed, started while
  the first runs, writes and deletes the same record. What happens to a record is a
  sequence of writes and deletions; after a deletion the next write starts from the default
  record.
\<close>

datatype record_write = Write mutation | Delete

fun record_snapshots :: "record_write list \<Rightarrow> progress \<Rightarrow> progress list" where
  "record_snapshots [] p = []"
| "record_snapshots (Write m # ws) p = apply_mutation m p # record_snapshots ws (apply_mutation m p)"
| "record_snapshots (Delete # ws) p = record_snapshots ws default_progress"

fun writes_of :: "effect list \<Rightarrow> record_write list" where
  "writes_of [] = []"
| "writes_of (Mut m # es) = Write m # writes_of es"
| "writes_of (e # es) = writes_of es"

text \<open>What one \<open>scrape_url\<close> call does to the record of its key: its writes, then the
  deletion of line 475 (or 488).\<close>

definition call_writes :: "effect list \<Rightarrow> record_write list" where
  "call_writes effs = writes_of effs @ [Delete]"

text \<open>
  The snapshots that a progress consumer can observe while a \<open>scrape_url\<close> call runs: the
  record after each write to it. \<open>other\<close> are the writes and deletions that other calls with
  the same key make meanwhile, and \<open>turns\<close> says in which order the two take their turns
  (0 for this call, 1 for the others).
\<close>

definition scrape_snapshots ::
  "(string \<Rightarrow> string) \<Rightarrow> (string \<Rightarrow> int) \<Rightarrow> (string \<Rightarrow> string option) \<Rightarrow> string \<Rightarrow> string
     \<Rightarrow> (nat \<Rightarrow> nat \<Rightarrow> response) \<Rightarrow> nat list list \<Rightarrow> string + string list
     \<Rightarrow> record_write list \<Rightarrow> nat list \<Rightarrow> world \<Rightarrow> progress list" where
  "scrape_snapshots nfkd hash urlparse url tracker_id net scheds page other turns w =
     record_snapshots
       (interleave turns [call_writes (scrape_effects nfkd hash urlparse url net scheds page), other])
       (tracker_get (progress_tracker w) tracker_id)"

text \<open>The invariant of the job record as the specification states it, and as it holds: the
  bound by the total only once the total has been set.\<close>

definition progress_inv :: "progress \<Rightarrow> bool" where
  "progress_inv p = (processed p \<le> total p \<and> counted p \<le> processed p)"

definition progress_inv_after_init :: "progress \<Rightarrow> bool" where
  "progress_inv_after_init p = (counted p \<le> processed p \<and> (total p = 0 \<or> processed p \<le> total p))"

section \<open>Counting the writes of a task\<close>

text \<open>The increments of the processed counter and of the three outcome counters among some
  effects, and the record they lead to.\<close>

definition n_processed :: "effect list \<Rightarrow> nat" where
  "n_processed es = count_list es (Mut IncProcessed)"

definition n_counted :: "effect list \<Rightarrow> nat" where
  "n_counted es =
     count_list es (Mut IncSkipped) + count_list es (Mut IncPotentialSuccessful)
       + count_list es (Mut IncFailed)"

fun final_progress :: "effect list \<Rightarrow> progress \<Rightarrow> progress" where
  "final_progress [] p = p"
| "final_progress (Mut m # es) p = final_progress es (apply_mutation m p)"
| "final_progress (e # es) p = final_progress es p"

fun is_set_total :: "effect \<Rightarrow> bool" where
  "is_set_total (Mut (SetTotal n)) = True"
| "is_set_total e = False"

fun sets_counter :: "effect \<Rightarrow> bool" where
  "sets_counter (Mut (SetTotal n)) = True"
| "sets_counter (Mut (SetProcessed n)) = True"
| "sets_counter e = False"

text \<open>
  Effects that a task has still to make are in order when none of them sets the total or the
  processed count and when, from any point on, they hold at least as many increments of an
  outcome counter as of the processed counter: each outcome is counted after its URL was
  counted as processed.
\<close>

fun task_ok :: "effect list \<Rightarrow> bool" where
  "task_ok [] = True"
| "task_ok (e # es) =
     (\<not> sets_counter e \<and> n_processed (e # es) \<le> n_counted (e # es) \<and> task_ok es)"

text \<open>Sample parameters: a service with one answer for every task and request, and an empty
  world.\<close>

definition net_always :: "response \<Rightarrow> nat \<Rightarrow> nat \<Rightarrow> response" where
  "net_always r i n = r"

definition empty_world :: world where
  "empty_world =
     \<lparr>progress_tracker = Map.empty, results_tracker = Map.empty,
      files = \<lparr>dirs = Map.empty, zips = Map.empty\<rparr>\<rparr>"

text \<open>A world in which the job \<open>job\<close> has a progress record.\<close>

definition world_with_job :: world where
  "world_with_job = empty_world\<lparr>progress_tracker := [''job'' \<mapsto> default_progress]\<rparr>"


section \<open>Properties of the string operations\<close>

lemma dropWhile_idem: "dropWhile P (dropWhile P xs) = dropWhile P xs"
  by (induction xs) auto

lemma py_rstrip_idem: "py_rstrip (py_rstrip s) = py_rstrip s"
  by (simp add: py_rstrip_def dropWhile_idem)

lemma py_rstrip_lstrip_fixed:
  assumes "py_lstrip s = s"
  shows "py_lstrip (py_rstrip s) = py_rstrip s"
proof (cases "py_rstrip s")
  case Nil
  then show ?thesis by (simp add: py_lstrip_def)
next
  case (Cons c cs)
  have pre: "prefix (py_rstrip s) s"
  proof -
    have "suffix (dropWhile py_isspace (rev s)) (rev s)"
      by (rule suffix_dropWhile)
    then have "prefix (rev (dropWhile py_isspace (rev s))) (rev (rev s))"
      by (simp only: suffix_to_prefix rev_rev_ident)
    then show ?thesis by (simp add: py_rstrip_def)
  qed
  with Cons obtain t where s: "s = c # t"
    by (cases s) (auto simp: prefix_Cons)
  from assms s have "\<not> py_isspace c"
    unfolding py_lstrip_def
    by (metis dropWhile_eq_Cons_conv)
  with Cons show ?thesis by (simp add: py_lstrip_def)
qed

lemma py_lstrip_idem: "py_lstrip (py_lstrip s) = py_lstrip s"
  by (simp add: py_lstrip_def dropWhile_idem)

lemma py_strip_idem: "py_strip (py_strip s) = py_strip s"
proof -
  have "py_lstrip (py_rstrip (py_lstrip s)) = py_rstrip (py_lstrip s)"
    by (rule py_rstrip_lstrip_fixed) (rule py_lstrip_idem)
  then show ?thesis by (simp add: py_strip_def py_rstrip_idem)
qed


section \<open>The two validation passes\<close>

lemma stripped_checks_agree: "fetch_rejects (py_strip t) = archive_rejects (py_strip t)"
  by (simp add: fetch_rejects_def archive_rejects_def too_short_def py_strip_idem)

text \<open>Stripping a text, or splitting it into lines, keeps what the metadata check sees.\<close>

lemma prefix_not_space:
  assumes "startswith_any metadata_prefixes line"
  shows "line \<noteq> [] \<and> \<not> py_isspace (hd line)"
  using assms
  by (auto simp: startswith_any_def metadata_prefixes_def py_isspace_def prefix_def)

lemma py_strip_Nil_iff: "py_strip s = [] \<longleftrightarrow> (\<forall>c \<in> set s. py_isspace c)"
proof
  assume "py_strip s = []"
  then have all: "\<forall>c \<in> set (dropWhile py_isspace s). py_isspace c"
    by (simp add: py_strip_def py_rstrip_def py_lstrip_def dropWhile_eq_Nil_conv)
  have "dropWhile py_isspace s = []"
  proof (rule ccontr)
    assume ne: "dropWhile py_isspace s \<noteq> []"
    then have "\<not> py_isspace (hd (dropWhile py_isspace s))" by (rule hd_dropWhile)
    moreover from ne have "hd (dropWhile py_isspace s) \<in> set (dropWhile py_isspace s)"
      by (rule hd_in_set)
    ultimately show False using all by blast
  qed
  then show "\<forall>c \<in> set s. py_isspace c" by (simp add: dropWhile_eq_Nil_conv)
next
  assume "\<forall>c \<in> set s. py_isspace c"
  then show "py_strip s = []"
    by (auto simp: py_strip_def py_rstrip_def py_lstrip_def dest: set_dropWhileD)
qed

lemma only_metadata_Nil [simp]: "only_metadata [] = True"
  by (simp add: only_metadata_def)

lemma split_nl_nonempty: "split_nl s \<noteq> []"
  by (induction s) (auto split: list.splits)

lemma meta_line_cases:
  "only_metadata (l # ls) = ((py_strip l = [] \<or> startswith_any metadata_prefixes l) \<and> only_metadata ls)"
  by (auto simp: only_metadata_def)

lemma only_metadata_append:
  "only_metadata (xs @ ys) = (only_metadata xs \<and> only_metadata ys)"
  by (auto simp: only_metadata_def)

lemma only_metadata_drop_space:
  assumes "py_isspace c" and "only_metadata (split_nl (c # s))"
  shows "only_metadata (split_nl s)"
proof (cases "c = NL")
  case True
  with assms show ?thesis by (simp add: meta_line_cases)
next
  case False
  obtain l ls where sp: "split_nl s = l # ls"
    using split_nl_nonempty [of s] by (cases "split_nl s") auto
  with False have sp': "split_nl (c # s) = (c # l) # ls" by simp
  from assms(1) have "\<not> startswith_any metadata_prefixes (c # l)"
    using prefix_not_space [of "c # l"] by auto
  with assms(2) sp' have blank: "py_strip (c # l) = []" and rest: "only_metadata ls"
    by (simp_all add: meta_line_cases)
  from blank have "py_strip l = []" by (simp add: py_strip_Nil_iff)
  with rest sp show ?thesis by (simp add: meta_line_cases)
qed

lemma only_metadata_lstrip:
  "only_metadata (split_nl s) \<Longrightarrow> only_metadata (split_nl (py_lstrip s))"
proof (induction s)
  case Nil
  then show ?case by (simp add: py_lstrip_def)
next
  case (Cons c s)
  show ?case
  proof (cases "py_isspace c")
    case True
    have "only_metadata (split_nl s)" by (rule only_metadata_drop_space [OF True Cons.prems])
    with Cons.IH True show ?thesis by (simp add: py_lstrip_def)
  next
    case False
    with Cons.prems show ?thesis by (simp add: py_lstrip_def)
  qed
qed

lemma split_nl_snoc:
  "split_nl (s @ [c]) =
     (if c = NL then split_nl s @ [[]]
      else butlast (split_nl s) @ [last (split_nl s) @ [c]])"
proof (induction s)
  case Nil
  then show ?case by simp
next
  case (Cons x s)
  obtain l ls where sp: "split_nl s = l # ls"
    using split_nl_nonempty [of s] by (cases "split_nl s") auto
  show ?case
  proof (cases "c = NL")
    case True
    with Cons sp show ?thesis by (auto split: list.splits)
  next
    case False
    with Cons sp show ?thesis
      by (cases ls) (auto split: list.splits simp: split_nl_nonempty)
  qed
qed

lemma startswith_snoc_space:
  assumes "py_isspace c" and "startswith_any metadata_prefixes (l @ [c])"
  shows "startswith_any metadata_prefixes l"
proof -
  from assms(2) obtain p where p: "p \<in> set metadata_prefixes" "prefix p (l @ [c])"
    by (auto simp: startswith_any_def list_ex_iff)
  from p(1) have last: "p \<noteq> [] \<and> \<not> py_isspace (last p)"
    by (auto simp: metadata_prefixes_def py_isspace_def)
  from p(2) have "prefix p l \<or> p = l @ [c]" by (auto simp: prefix_snoc)
  with last assms(1) have "prefix p l" by auto
  with p(1) show ?thesis by (auto simp: startswith_any_def list_ex_iff)
qed

lemma only_metadata_drop_last_space:
  assumes "py_isspace c" and "only_metadata (split_nl (s @ [c]))"
  shows "only_metadata (split_nl s)"
proof (cases "c = NL")
  case True
  with assms(2) show ?thesis by (simp add: split_nl_snoc only_metadata_append)
next
  case False
  define ls where "ls = butlast (split_nl s)"
  define l where "l = last (split_nl s)"
  have sp: "split_nl s = ls @ [l]"
    using split_nl_nonempty [of s] by (simp add: ls_def l_def)
  from False assms(2) have m: "only_metadata ls" "only_metadata [l @ [c]]"
    by (simp_all add: split_nl_snoc only_metadata_append ls_def l_def)
  have "only_metadata [l]"
  proof (cases "py_strip l = []")
    case True
    then show ?thesis by (simp add: meta_line_cases)
  next
    case False
    then have "py_strip (l @ [c]) \<noteq> []" by (auto simp: py_strip_Nil_iff)
    with m(2) have "startswith_any metadata_prefixes (l @ [c])"
      by (simp add: meta_line_cases)
    with assms(1) have "startswith_any metadata_prefixes l" by (rule startswith_snoc_space)
    then show ?thesis by (simp add: meta_line_cases)
  qed
  with m(1) sp show ?thesis by (simp add: only_metadata_append)
qed

lemma only_metadata_rstrip:
  "only_metadata (split_nl s) \<Longrightarrow> only_metadata (split_nl (py_rstrip s))"
proof (induction s rule: rev_induct)
  case Nil
  then show ?case by (simp add: py_rstrip_def)
next
  case (snoc c s)
  show ?case
  proof (cases "py_isspace c")
    case True
    have "only_metadata (split_nl s)" by (rule only_metadata_drop_last_space [OF True snoc.prems])
    with snoc.IH True show ?thesis by (simp add: py_rstrip_def)
  next
    case False
    with snoc.prems show ?thesis by (simp add: py_rstrip_def)
  qed
qed

lemma only_metadata_strip:
  "only_metadata (split_nl s) \<Longrightarrow> only_metadata (split_nl (py_strip s))"
  by (simp add: py_strip_def only_metadata_lstrip only_metadata_rstrip)

lemma count_nl_strip: "count_nl (py_strip s) \<le> count_nl s"
proof -
  have a: "\<And>P xs. length (filter P (dropWhile py_isspace xs)) \<le> length (filter P xs)"
    by (metis filter_append le_add2 length_append takeWhile_dropWhile_id)
  have "count_nl (py_rstrip (py_lstrip s)) \<le> count_nl (py_lstrip s)"
    using a [of "\<lambda>c. c = NL" "rev (py_lstrip s)"]
    by (simp add: count_nl_def py_rstrip_def flip: rev_filter)
  also have "\<dots> \<le> count_nl s"
    using a [of "\<lambda>c. c = NL" s] by (simp add: count_nl_def py_lstrip_def)
  finally show ?thesis by (simp add: py_strip_def)
qed

lemma archive_implies_fetch_time: "archive_rejects s \<Longrightarrow> fetch_time_rejects s"
  using count_nl_strip [of s] only_metadata_strip [of s]
  by (auto simp: archive_rejects_def fetch_time_rejects_def fetch_rejects_def too_short_def)

lemma fetch_implies_archive: "fetch_rejects s \<Longrightarrow> archive_rejects s"
proof -
  have "length (dropWhile py_isspace (rev (dropWhile py_isspace s)))
      \<le> length (rev (dropWhile py_isspace s))"
    by (rule length_dropWhile_le)
  also have "\<dots> \<le> length s" by (simp add: length_dropWhile_le)
  finally have "length (py_strip s) \<le> length s"
    by (simp add: py_strip_def py_rstrip_def py_lstrip_def)
  then show "fetch_rejects s \<Longrightarrow> archive_rejects s"
    by (auto simp: fetch_rejects_def archive_rejects_def too_short_def)
qed

text \<open>
  C5, as stated: for every content string the fetch-time pass rejects if and only if the
  archival-time pass rejects. Not on every string. The fetch-time pass strips the response
  text (line 261) and counts the line breaks of the stripped text; the archival pass counts
  the line breaks of the string it is given (line 347). The text of 50 letters followed by
  three line breaks is rejected at fetch time, where no line break is left after stripping,
  and accepted by \<open>create_zip_file\<close>, which finds 50 characters, three line breaks and a
  line that is no metadata.
\<close>

theorem validation_counterexample:
  "fetch_time_rejects (replicate 50 CHR ''a'' @ [NL, NL, NL])
   \<and> \<not> archive_rejects (replicate 50 CHR ''a'' @ [NL, NL, NL])"
  by code_simp

text \<open>
  C5, amended: every string that the archival-time pass rejects is rejected by the
  fetch-time pass; every string that the check of lines 265 to 272 rejects as it stands is
  rejected by the archival-time pass; and on every string without leading or trailing
  whitespace, which is all that \<open>get_markdown_content\<close> validates and returns, the fetch-time
  pass and the archival-time pass agree.
\<close>

theorem validation_passes_related:
  "(archive_rejects s \<longrightarrow> fetch_time_rejects s)
   \<and> (fetch_rejects s \<longrightarrow> archive_rejects s)
   \<and> (py_strip s = s \<longrightarrow> fetch_time_rejects s = archive_rejects s)"
proof (intro conjI impI)
  assume "archive_rejects s"
  then show "fetch_time_rejects s" by (rule archive_implies_fetch_time)
next
  assume "fetch_rejects s"
  then show "archive_rejects s" by (rule fetch_implies_archive)
next
  assume "py_strip s = s"
  then show "fetch_time_rejects s = archive_rejects s"
    using stripped_checks_agree [of s] by (simp add: fetch_time_rejects_def)
qed

theorem validation_passes_related_witness:
  "archive_rejects ''too short'' \<and> fetch_rejects ''too short''
   \<and> py_strip ''too short'' = ''too short''
   \<and> fetch_time_rejects ''too short''
   \<and> fetch_time_rejects ''too short'' = archive_rejects ''too short''"
proof -
  have a: "archive_rejects ''too short''" by code_simp
  have f: "fetch_rejects ''too short''" by code_simp
  have s: "py_strip ''too short'' = ''too short''" by code_simp
  show ?thesis
    using a f s validation_passes_related [of "''too short''"] by blast
qed



section \<open>File names are safe\<close>

lemma name_char_not_reserved: "name_char c \<Longrightarrow> c \<notin> set reserved_chars"
  by (auto simp: name_char_def reserved_chars_def re_word_def is_ascii_def)

lemma digit_name_char:
  fixes n :: nat
  assumes "n < 10"
  shows "name_char (char_of (48 + n))"
proof -
  from assms have "(48 + n) mod 256 = 48 + n" by simp
  then have "(of_char (char_of (48 + n) :: char) :: nat) = 48 + n"
    by (simp only: of_char_of)
  with assms show ?thesis
    by (simp add: name_char_def is_ascii_def re_word_def Let_def)
qed

lemma str_nat_chars: "c \<in> set (str_nat n) \<Longrightarrow> name_char c"
proof (induction n rule: str_nat.induct)
  case (1 n)
  show ?case
  proof (cases "n < 10")
    case True
    with "1.prems" have "c = char_of (48 + n)" by (simp add: str_nat.simps)
    with True show ?thesis by (simp add: digit_name_char)
  next
    case False
    with "1.prems" have "c \<in> set (str_nat (n div 10)) \<or> c = char_of (48 + n mod 10)"
      by (subst (asm) str_nat.simps) auto
    then show ?thesis
    proof
      assume "c \<in> set (str_nat (n div 10))"
      with False "1.IH" show ?thesis by simp
    next
      assume "c = char_of (48 + n mod 10)"
      then show ?thesis by (simp add: digit_name_char)
    qed
  qed
qed

lemma str_int_chars: "c \<in> set (str_int i) \<Longrightarrow> name_char c"
  by (auto simp: str_int_def name_char_def dest: str_nat_chars split: if_splits)

lemma collapse_hyphens_chars:
  "c \<in> set (collapse_hyphens s) \<Longrightarrow> c = CHR ''-'' \<or> c \<in> set s"
proof (induction s rule: collapse_hyphens.induct)
  case 1
  then show ?case by simp
next
  case (2 d ds)
  show ?case
  proof (cases "hyphen_or_space d")
    case True
    with "2.prems" have "c = CHR ''-'' \<or> c \<in> set (collapse_hyphens (dropWhile hyphen_or_space ds))"
      by simp
    with True "2.IH"(1) have "c = CHR ''-'' \<or> c \<in> set (dropWhile hyphen_or_space ds)"
      by blast
    then show ?thesis by (auto dest: set_dropWhileD)
  next
    case False
    with "2.prems" "2.IH"(2) show ?thesis by auto
  qed
qed

lemma collapse_hyphens_no_space:
  "c \<in> set (collapse_hyphens s) \<Longrightarrow> c = CHR ''-'' \<or> \<not> hyphen_or_space c"
proof (induction s rule: collapse_hyphens.induct)
  case 1
  then show ?case by simp
next
  case (2 d ds)
  then show ?case by (cases "hyphen_or_space d") auto
qed

lemma strip_hyphens_subset: "set (strip_hyphens s) \<subseteq> set s"
  unfolding strip_hyphens_def by (auto dest!: set_dropWhileD)

lemma rstrip_hyphens_subset: "set (rstrip_hyphens s) \<subseteq> set s"
  unfolding rstrip_hyphens_def by (auto dest!: set_dropWhileD)

lemma rstrip_hyphens_length: "length (rstrip_hyphens s) \<le> length s"
  proof -
  have "length (dropWhile (\<lambda>c. c = CHR ''-'') (rev s)) \<le> length (rev s)"
    by (rule length_dropWhile_le)
  then show ?thesis by (simp add: rstrip_hyphens_def)
qed

lemma py_slice_to_subset: "set (py_slice_to m s) \<subseteq> set s"
  unfolding py_slice_to_def by (auto dest: in_set_takeD)

lemma py_slice_to_length: "0 \<le> m \<Longrightarrow> length (py_slice_to m s) \<le> nat m"
  unfolding py_slice_to_def by simp

lemma safe_chars_finish:
  assumes chars: "\<And>c. c \<in> set sc \<Longrightarrow> name_char c"
  shows "set ((if sc = [] then ''untitled_'' @ take 8 (str_int i) @ ''.md''
               else sc @ ''_'' @ take 8 (str_int i) @ ''.md'')) \<inter> set reserved_chars = {}"
proof -
  have h: "\<And>c. c \<in> set (take 8 (str_int i)) \<Longrightarrow> name_char c"
    by (auto dest: in_set_takeD str_int_chars)
  have lit: "\<And>c. c \<in> set ''untitled_'' \<union> set ''_'' \<union> set ''.md'' \<Longrightarrow> name_char c"
    by (auto simp: name_char_def is_ascii_def re_word_def)
  have "\<And>c. c \<in> set (if sc = [] then ''untitled_'' @ take 8 (str_int i) @ ''.md''
               else sc @ ''_'' @ take 8 (str_int i) @ ''.md'') \<Longrightarrow> name_char c"
    using chars h lit by (auto split: if_splits)
  then show ?thesis using name_char_not_reserved by blast
qed

lemma safe_title_chars:
  assumes "c \<in> set (safe_title nfkd t m)"
  shows "name_char c"
proof -
  define s1 where "s1 = filter (\<lambda>c. re_word c \<or> py_isspace c \<or> c = CHR ''-'') (filter is_ascii (nfkd t))"
  have "set (safe_title nfkd t m) \<subseteq> set (collapse_hyphens s1)"
    using strip_hyphens_subset [of "collapse_hyphens s1"]
      rstrip_hyphens_subset [of "py_slice_to m (strip_hyphens (collapse_hyphens s1))"]
      py_slice_to_subset [of m "strip_hyphens (collapse_hyphens s1)"]
    by (auto simp: safe_title_def Let_def s1_def)
  with assms have in_c: "c \<in> set (collapse_hyphens s1)" by blast
  show ?thesis
  proof (cases "c = CHR ''-''")
    case True
    then show ?thesis by (simp add: name_char_def)
  next
    case False
    with in_c collapse_hyphens_chars [of c s1] collapse_hyphens_no_space [of c s1]
    have "c \<in> set s1" and "\<not> hyphen_or_space c" by auto
    then have "is_ascii c \<and> re_word c"
      by (auto simp: s1_def hyphen_or_space_def)
    then show ?thesis by (simp add: name_char_def)
  qed
qed

lemma safe_title_length:
  assumes "0 \<le> m"
  shows "length (safe_title nfkd t m) \<le> nat m"
proof -
  define s3 where
    "s3 = strip_hyphens (collapse_hyphens
       (filter (\<lambda>c. re_word c \<or> py_isspace c \<or> c = CHR ''-'') (filter is_ascii (nfkd t))))"
  show ?thesis
  proof (cases "int (length s3) > m")
    case True
    then have "safe_title nfkd t m = rstrip_hyphens (py_slice_to m s3)"
      by (simp add: safe_title_def Let_def s3_def)
    moreover have "length (rstrip_hyphens (py_slice_to m s3)) \<le> length (py_slice_to m s3)"
      by (rule rstrip_hyphens_length)
    moreover have "length (py_slice_to m s3) \<le> nat m"
      using assms by (rule py_slice_to_length)
    ultimately show ?thesis by simp
  next
    case False
    then have "safe_title nfkd t m = s3"
      by (simp add: safe_title_def Let_def s3_def)
    with False show ?thesis by simp
  qed
qed

lemma str_int_nonempty: "str_int i \<noteq> []"
  by (simp add: str_int_def str_nat.simps [of "nat i"])

text \<open>
  C6, as stated: the file name never exceeds the configured maximum length. It does: only
  the sanitised title is cut to \<open>max_length\<close>; the underscore, the hash digits and the
  extension are appended afterwards. A title of 100 letters gives a name of 106 characters
  under the default maximum of 100.
\<close>

theorem create_safe_filename_counterexample:
  "\<not> length (create_safe_filename nfkd_of_ascii hash_42 (Some (replicate 100 CHR ''a'')) ''http://a'' 100) \<le> 100"
  by code_simp

text \<open>
  C6, amended: for every title (including \<open>None\<close>) and every URL the file name ends in
  \<open>.md\<close> and contains no path separator and no reserved character; when a title is given
  and \<open>max_length\<close> is not negative, its length is at most \<open>max max_length 8 + 12\<close>: the
  title part is at most \<open>max_length\<close> long, and up to 12 characters (underscore, eight hash
  digits, extension) follow it.
\<close>

theorem create_safe_filename_shape:
  "suffix ''.md'' (create_safe_filename nfkd hash title url max_length)
   \<and> set (create_safe_filename nfkd hash title url max_length) \<inter> set reserved_chars = {}
   \<and> (title \<noteq> None \<and> title \<noteq> Some [] \<and> 0 \<le> max_length \<longrightarrow>
        length (create_safe_filename nfkd hash title url max_length) \<le> max (nat max_length) 8 + 12)"
proof (intro conjI impI)
  show "suffix ''.md'' (create_safe_filename nfkd hash title url max_length)"
    by (simp add: create_safe_filename_def Let_def suffix_def)
next
  show "set (create_safe_filename nfkd hash title url max_length) \<inter> set reserved_chars = {}"
  proof (cases "title = None \<or> title = Some []")
    case True
    have "\<And>c. c \<in> set (str_int (hash url) @ ''.md'') \<Longrightarrow> name_char c"
      by (auto dest: str_int_chars simp: name_char_def is_ascii_def re_word_def)
    with True show ?thesis
      using name_char_not_reserved by (fastforce simp: create_safe_filename_def)
  next
    case False
    then obtain t where "title = Some t" and "t \<noteq> []" by (cases title) auto
    then have "create_safe_filename nfkd hash title url max_length =
      (if safe_title nfkd (the title) max_length = []
       then ''untitled_'' @ take 8 (str_int (abs (hash url))) @ ''.md''
       else safe_title nfkd (the title) max_length @ ''_'' @ take 8 (str_int (abs (hash url))) @ ''.md'')"
      by (simp add: create_safe_filename_def Let_def)
    then show ?thesis
      using safe_chars_finish [of "safe_title nfkd (the title) max_length" "abs (hash url)"]
        safe_title_chars by simp
  qed
next
  assume a: "title \<noteq> None \<and> title \<noteq> Some [] \<and> 0 \<le> max_length"
  then obtain t where t: "title = Some t" "t \<noteq> []" by (cases title) auto
  from a have len: "length (safe_title nfkd (the title) max_length) \<le> nat max_length"
    by (simp add: safe_title_length)
  have h8: "length (take 8 (str_int (abs (hash url)))) \<le> 8" by simp
  from t len h8 show "length (create_safe_filename nfkd hash title url max_length) \<le> max (nat max_length) 8 + 12"
    by (auto simp add: create_safe_filename_def Let_def)
qed

theorem create_safe_filename_shape_witness:
  "Some ''A b'' \<noteq> None \<and> Some ''A b'' \<noteq> Some [] \<and> (0::int) \<le> 100
   \<and> suffix ''.md'' (create_safe_filename nfkd_of_ascii hash_42 (Some ''A b'') ''http://a'' 100)
   \<and> set (create_safe_filename nfkd_of_ascii hash_42 (Some ''A b'') ''http://a'' 100) \<inter> set reserved_chars = {}
   \<and> length (create_safe_filename nfkd_of_ascii hash_42 (Some ''A b'') ''http://a'' 100) \<le> max (nat 100) 8 + 12
   \<and> create_safe_filename nfkd_of_ascii hash_42 (Some ''A b'') ''http://a'' 100 = ''A-b_42.md''"
proof -
  have e: "create_safe_filename nfkd_of_ascii hash_42 (Some ''A b'') ''http://a'' 100 = ''A-b_42.md''"
    by code_simp
  show ?thesis
    using create_safe_filename_shape [of nfkd_of_ascii hash_42 "Some ''A b''" "''http://a''" 100] e
    by simp
qed



section \<open>Fetching one URL: retries and skips\<close>

lemma digit_char_eq:
  fixes d :: nat
  assumes "d < 10"
  shows "(char_of (48 + d) = c) = ((of_char c :: nat) = 48 + d)"
proof -
  from assms have "take_bit 8 (48 + d) = 48 + d"
    by (simp add: take_bit_eq_mod)
  then show ?thesis by (auto simp: char_of_eq_iff)
qed

lemma str_nat_three_digits:
  assumes "100 \<le> n" and "n < 1000"
  shows "str_nat n = [char_of (48 + n div 100), char_of (48 + n div 10 mod 10), char_of (48 + n mod 10)]"
proof -
  from assms have a: "str_nat n = str_nat (n div 10) @ [char_of (48 + n mod 10)]"
    by (subst str_nat.simps) simp
  from assms have b: "str_nat (n div 10) = str_nat (n div 10 div 10) @ [char_of (48 + n div 10 mod 10)]"
    by (subst str_nat.simps) simp
  have e: "n div 10 div 10 = n div 100" by (simp add: div_mult2_eq)
  from assms have c: "str_nat (n div 100) = [char_of (48 + n div 100)]"
    by (subst str_nat.simps) simp
  from a b c e show ?thesis by simp
qed



lemma contains_429_message:
  "contains ''429'' (''Failed to get content: '' @ [a, b, c]) = (a = CHR ''4'' \<and> b = CHR ''2'' \<and> c = CHR ''9'')"
  by auto

lemma no_too_short_in_message:
  "\<not> contains ''too short'' (''Failed to get content: '' @ [a, b, c])"
  by simp

lemma no_only_metadata_in_message:
  "\<not> contains ''only metadata'' (''Failed to get content: '' @ [a, b, c])"
  by simp

lemma digits_429:
  fixes n :: nat
  assumes "n div 100 = 4" and "n div 10 mod 10 = 2" and "n mod 10 = 9" and "n < 1000"
  shows "n = 429"
proof -
  have "n = 10 * (n div 10) + n mod 10" by simp
  moreover have "n div 10 = 10 * (n div 10 div 10) + n div 10 mod 10" by simp
  moreover have "n div 10 div 10 = n div 100" by (simp add: div_mult2_eq)
  ultimately show ?thesis using assms by linarith
qed

lemma status_message_not_retried:
  assumes "100 \<le> status_code" and "status_code < 1000" and "status_code \<noteq> 429"
  shows "\<not> contains ''429'' (''Failed to get content: '' @ str_int status_code)"
    and "\<not> contains ''too short'' (''Failed to get content: '' @ str_int status_code)"
    and "\<not> contains ''only metadata'' (''Failed to get content: '' @ str_int status_code)"
proof -
  define n where "n = nat status_code"
  from assms have n: "100 \<le> n" "n < 1000" "n \<noteq> 429" by (auto simp: n_def)
  from assms have s: "str_int status_code = str_nat n" by (simp add: str_int_def n_def)
  from n have d: "n div 100 < 10" "n div 10 mod 10 < 10" "n mod 10 < 10" by auto
  have three: "str_int status_code =
      [char_of (48 + n div 100), char_of (48 + n div 10 mod 10), char_of (48 + n mod 10)]"
    using str_nat_three_digits [OF n(1) n(2)] s by simp
  have "\<not> (char_of (48 + n div 100) = CHR ''4'' \<and> char_of (48 + n div 10 mod 10) = CHR ''2''
            \<and> char_of (48 + n mod 10) = CHR ''9'')"
  proof
    assume a: "char_of (48 + n div 100) = CHR ''4'' \<and> char_of (48 + n div 10 mod 10) = CHR ''2''
            \<and> char_of (48 + n mod 10) = CHR ''9''"
    from a d(1) have "n div 100 = 4" by (simp add: digit_char_eq)
    moreover from a d(2) have "n div 10 mod 10 = 2" by (simp add: digit_char_eq)
    moreover from a d(3) have "n mod 10 = 9" by (simp add: digit_char_eq)
    ultimately have "n = 429" using n(2) by (rule digits_429)
    with n(3) show False by simp
  qed
  then show "\<not> contains ''429'' (''Failed to get content: '' @ str_int status_code)"
    by (simp only: three contains_429_message simp_thms)
  show "\<not> contains ''too short'' (''Failed to get content: '' @ str_int status_code)"
    by (simp only: three no_too_short_in_message not_False_eq_True)
  show "\<not> contains ''only metadata'' (''Failed to get content: '' @ str_int status_code)"
    by (simp only: three no_only_metadata_in_message not_False_eq_True)
qed


lemma fetch_loop_other_status:
  assumes "retries \<le> MAX_RETRIES"
    and "responses n = Response status_code text"
    and "status_code \<noteq> 200" and "status_code \<noteq> 429"
    and "100 \<le> status_code" and "status_code < 1000"
  shows "fetch_loop jina_url timeout responses n retries =
           ([AcquireRateLimit, Get jina_url timeout, Mut IncProcessed, Mut IncFailed], [])"
proof -
  from assms have a: "attempt retries (responses n) =
      Raised retries (''Failed to get content: '' @ str_int status_code)"
    by (simp add: attempt_def)
  from assms have "on_exception retries (''Failed to get content: '' @ str_int status_code) = None"
    unfolding on_exception_def
    using status_message_not_retried [of status_code] by simp
  with a assms(1) show ?thesis
    by (subst fetch_loop.simps) simp
qed


lemma should_skip_url_accepts:
  "should_skip_url urlparse_accepts url = Inr (matches_skip_pattern url)"
  by (simp add: should_skip_url_def urlparse_accepts_def)

text \<open>
  C3, amended: when the extraction service answers the first request for a URL with a
  three-digit status other than 200 and 429, \<open>get_markdown_content\<close> does not retry: after
  that one request, with no delay, it marks the URL processed and failed and returns empty
  content. Only 429 and the content rejections take the retry path.
\<close>

theorem other_status_not_retried:
  assumes "should_skip_url urlparse url = Inr False"
    and "responses 0 = Response status_code text"
    and "status_code \<noteq> 200" and "status_code \<noteq> 429"
    and "100 \<le> status_code" and "status_code < 1000"
  shows "get_markdown_content urlparse url responses =
           ([Mut (SetCurrentUrl url), AcquireRateLimit,
             Get (''https://r.jina.ai/'' @ transform_arxiv_url url)
               (if is_pdf_url (transform_arxiv_url url) then PDF_TIMEOUT else DEFAULT_TIMEOUT),
             Mut IncProcessed, Mut IncFailed], Inr (url, []))"
  using assms fetch_loop_other_status [of 0 responses 0 status_code "text"]
  by (simp add: get_markdown_content_def Let_def MAX_RETRIES_def)

text \<open>
  C3, as stated: a status other than 200 and 429 is retried up to \<open>MAX_RETRIES\<close> times, on
  the same path as 429. It is not: the message of the exception raised for status 500 holds
  none of the three substrings the \<open>except\<close> block looks for, so the loop breaks after the
  first request, without any sleep, while a service that always answers 429 is asked four
  times.
\<close>

theorem other_status_counterexample:
  "length (filter is_request (fst (get_markdown_content urlparse_accepts ''http://a.org/x''
      (always (Response 500 []))))) = 1
   \<and> filter is_sleep (fst (get_markdown_content urlparse_accepts ''http://a.org/x''
      (always (Response 500 [])))) = []
   \<and> length (filter is_request (fst (get_markdown_content urlparse_accepts ''http://a.org/x''
      (always (Response 429 []))))) = 4"
  by code_simp

text \<open>
  C4: for every URL that matches a skip pattern, \<open>get_markdown_content\<close> makes no network
  request, increments the processed counter and the skipped counter of its job once each,
  and returns the pair of the URL and the empty content.
\<close>

theorem skip_url_not_fetched:
  assumes "should_skip_url urlparse url = Inr True"
  shows "get_markdown_content urlparse url responses =
           ([Mut (SetCurrentUrl url), Mut IncProcessed, Mut IncSkipped], Inr (url, []))
         \<and> filter is_request (fst (get_markdown_content urlparse url responses)) = []
         \<and> processed (tracker_get (run_effects k (fst (get_markdown_content urlparse url responses)) pt) k)
             = processed (tracker_get pt k) + 1
         \<and> skipped (tracker_get (run_effects k (fst (get_markdown_content urlparse url responses)) pt) k)
             = skipped (tracker_get pt k) + 1"
  using assms by (simp add: get_markdown_content_def mutate_def tracker_get_def)


theorem other_status_not_retried_witness:
  "should_skip_url urlparse_accepts ''http://a.org/x'' = Inr False
   \<and> always (Response 500 []) 0 = Response 500 []
   \<and> (500::int) \<noteq> 200 \<and> (500::int) \<noteq> 429 \<and> (100::int) \<le> 500 \<and> (500::int) < 1000
   \<and> get_markdown_content urlparse_accepts ''http://a.org/x'' (always (Response 500 [])) =
       ([Mut (SetCurrentUrl ''http://a.org/x''), AcquireRateLimit,
         Get (''https://r.jina.ai/'' @ transform_arxiv_url ''http://a.org/x'')
           (if is_pdf_url (transform_arxiv_url ''http://a.org/x'') then PDF_TIMEOUT else DEFAULT_TIMEOUT),
         Mut IncProcessed, Mut IncFailed], Inr (''http://a.org/x'', []))"
proof -
  have h: "should_skip_url urlparse_accepts ''http://a.org/x'' = Inr False" by code_simp
  have r: "always (Response 500 []) 0 = Response 500 []" by (simp add: always_def)
  show ?thesis
    using h r other_status_not_retried [of urlparse_accepts "''http://a.org/x''"
        "always (Response 500 [])" 500 "[]"]
    by simp
qed

theorem skip_url_not_fetched_witness:
  "should_skip_url urlparse_accepts ''https://x.com/a'' = Inr True
   \<and> get_markdown_content urlparse_accepts ''https://x.com/a'' (always (Response 200 [])) =
       ([Mut (SetCurrentUrl ''https://x.com/a''), Mut IncProcessed, Mut IncSkipped],
        Inr (''https://x.com/a'', []))
   \<and> filter is_request (fst (get_markdown_content urlparse_accepts ''https://x.com/a''
        (always (Response 200 [])))) = []
   \<and> processed (tracker_get (run_effects ''job'' (fst (get_markdown_content urlparse_accepts
        ''https://x.com/a'' (always (Response 200 [])))) Map.empty) ''job'')
        = processed (tracker_get Map.empty ''job'') + 1
   \<and> skipped (tracker_get (run_effects ''job'' (fst (get_markdown_content urlparse_accepts
        ''https://x.com/a'' (always (Response 200 [])))) Map.empty) ''job'')
        = skipped (tracker_get Map.empty ''job'') + 1"
proof -
  have h: "should_skip_url urlparse_accepts ''https://x.com/a'' = Inr True" by code_simp
  show ?thesis
    using h skip_url_not_fetched [OF h, of "always (Response 200 [])" "''job''" Map.empty]
    by blast
qed


section \<open>The rate limiter keeps its bound\<close>

lemma filter_window_restrict:
  fixes now0 now :: real
  assumes "now0 \<le> now"
  shows "filter (\<lambda>t. now - t < w) (filter (\<lambda>t. now0 - t < w) xs) = filter (\<lambda>t. now - t < w) xs"
proof -
  have "\<And>t. now - t < w \<Longrightarrow> now0 - t < w" using assms by simp
  then show ?thesis by (induction xs) auto
qed

lemma length_filter_implies:
  assumes "\<And>x. x \<in> set xs \<Longrightarrow> P x \<Longrightarrow> Q x"
  shows "length (filter P xs) \<le> length (filter Q xs)"
  using assms
proof (induction xs)
  case Nil
  then show ?case by simp
next
  case (Cons x xs)
  then have "length (filter P xs) \<le> length (filter Q xs)" by simp
  with Cons.prems [of x] show ?case by auto
qed

lemma acquire_step_suspends:
  assumes "RATE_LIMIT \<le> length (filter (\<lambda>t. now - t < real RATE_PERIOD) lrt)"
  shows "acquire_step now lrt =
           (filter (\<lambda>t. now - t < real RATE_PERIOD) lrt,
            Suspended (real RATE_PERIOD - (now - hd (filter (\<lambda>t. now - t < real RATE_PERIOD) lrt))))
         \<and> 0 < real RATE_PERIOD - (now - hd (filter (\<lambda>t. now - t < real RATE_PERIOD) lrt))"
proof -
  let ?f = "filter (\<lambda>t. now - t < real RATE_PERIOD) lrt"
  from assms have "?f \<noteq> []" by (auto simp: RATE_LIMIT_def)
  then have "hd ?f \<in> set ?f" by (rule hd_in_set)
  then have "now - hd ?f < real RATE_PERIOD" by simp
  with assms show ?thesis by (simp add: acquire_step_def Let_def)
qed

lemma acquire_step_admits:
  assumes "length (filter (\<lambda>t. now - t < real RATE_PERIOD) lrt) < RATE_LIMIT"
  shows "acquire_step now lrt = (filter (\<lambda>t. now - t < real RATE_PERIOD) lrt @ [now], Admitted)"
  using assms by (simp add: acquire_step_def Let_def)

lemma limiter_inv_suspended:
  assumes "limiter_inv now0 lrt admitted" and "now0 \<le> now"
  shows "limiter_inv now (filter (\<lambda>t. now - t < real RATE_PERIOD) lrt) admitted"
  using assms unfolding limiter_inv_def
  by (auto simp: filter_window_restrict simp del: filter_filter)

lemma limiter_inv_admitted:
  assumes inv: "limiter_inv now0 lrt admitted" and le: "now0 \<le> now"
    and room: "length (filter (\<lambda>t. now - t < real RATE_PERIOD) lrt) < RATE_LIMIT"
  shows "limiter_inv now (filter (\<lambda>t. now - t < real RATE_PERIOD) lrt @ [now]) (admitted @ [now])"
proof -
  from inv le have f: "filter (\<lambda>t. now - t < real RATE_PERIOD) lrt
      = filter (\<lambda>t. now - t < real RATE_PERIOD) admitted"
    by (simp add: limiter_inv_def filter_window_restrict del: filter_filter)
  have w: "length (in_window a (admitted @ [now])) \<le> RATE_LIMIT" for a
  proof (cases "a \<le> now \<and> now < a + real RATE_PERIOD")
    case True
    have "length (in_window a admitted) \<le> length (filter (\<lambda>t. now - t < real RATE_PERIOD) admitted)"
      unfolding in_window_def using True by (intro length_filter_implies) auto
    with room f have "length (in_window a admitted) < RATE_LIMIT" by simp
    with True show ?thesis by (simp add: in_window_def)
  next
    case False
    then have "in_window a (admitted @ [now]) = in_window a admitted"
      by (auto simp: in_window_def)
    with inv show ?thesis by (simp add: limiter_inv_def)
  qed
  from inv le have "\<forall>t \<in> set (admitted @ [now]). t \<le> now"
    by (auto simp: limiter_inv_def)
  with f w show ?thesis
    by (simp add: limiter_inv_def RATE_PERIOD_def)
qed

lemma acquire_run_inv:
  assumes "limiter_inv now0 lrt admitted" and "sorted (now0 # ticks)"
  shows "\<exists>now1. limiter_inv now1 (fst (acquire_run ticks lrt admitted)) (snd (acquire_run ticks lrt admitted))"
  using assms
proof (induction ticks arbitrary: now0 lrt admitted)
  case Nil
  then show ?case by auto
next
  case (Cons now ticks)
  from Cons.prems have le: "now0 \<le> now" and s: "sorted (now # ticks)" by auto
  let ?f = "filter (\<lambda>t. now - t < real RATE_PERIOD) lrt"
  show ?case
  proof (cases "length ?f < RATE_LIMIT")
    case True
    then have step: "acquire_step now lrt = (?f @ [now], Admitted)"
      by (rule acquire_step_admits)
    from Cons.prems(1) le True have "limiter_inv now (?f @ [now]) (admitted @ [now])"
      by (rule limiter_inv_admitted)
    from Cons.IH [OF this s] step show ?thesis by simp
  next
    case False
    then have "RATE_LIMIT \<le> length ?f" by simp
    from acquire_step_suspends [OF this] obtain d where step: "acquire_step now lrt = (?f, Suspended d)"
      by blast
    from Cons.prems(1) le have "limiter_inv now ?f admitted"
      by (rule limiter_inv_suspended)
    from Cons.IH [OF this s] step show ?thesis by simp
  qed
qed

text \<open>
  C2: in every execution of \<open>acquire_rate_limit\<close> calls, by any number of concurrent callers,
  whose clock readings do not go backwards, at most \<open>RATE_LIMIT\<close> admissions fall into any
  window of \<open>RATE_PERIOD\<close> seconds (the window from \<open>a\<close> up to, not including,
  \<open>a + RATE_PERIOD\<close>, as the trimming test \<open>now - t < RATE_PERIOD\<close> of line 172 has it).
  An evaluation that finds \<open>RATE_LIMIT\<close> admissions still inside the period admits nothing:
  it leaves the trimmed list and sleeps for a positive time, after which the caller
  evaluates again from the start, as one more step of the run.
\<close>

theorem rate_limit_sliding_window:
  assumes "sorted ticks"
  shows "length (in_window a (admissions ticks)) \<le> RATE_LIMIT
         \<and> (RATE_LIMIT \<le> length (filter (\<lambda>t. now - t < real RATE_PERIOD) lrt) \<longrightarrow>
              (\<exists>d > 0. acquire_step now lrt
                         = (filter (\<lambda>t. now - t < real RATE_PERIOD) lrt, Suspended d)))"
proof
  show "length (in_window a (admissions ticks)) \<le> RATE_LIMIT"
  proof (cases ticks)
    case Nil
    then show ?thesis by (simp add: admissions_def in_window_def)
  next
    case (Cons now0 rest)
    have "limiter_inv now0 [] []" by (simp add: limiter_inv_def in_window_def)
    moreover from assms Cons have "sorted (now0 # ticks)" by simp
    ultimately obtain now1 where
      "limiter_inv now1 (fst (acquire_run ticks [] [])) (snd (acquire_run ticks [] []))"
      using acquire_run_inv by blast
    then show ?thesis by (simp add: limiter_inv_def admissions_def)
  qed
next
  show "RATE_LIMIT \<le> length (filter (\<lambda>t. now - t < real RATE_PERIOD) lrt) \<longrightarrow>
          (\<exists>d > 0. acquire_step now lrt
                     = (filter (\<lambda>t. now - t < real RATE_PERIOD) lrt, Suspended d))"
    using acquire_step_suspends [of now lrt] by blast
qed

theorem rate_limit_sliding_window_witness:
  "sorted [0, 30, 61 :: real]
   \<and> RATE_LIMIT \<le> length (filter (\<lambda>t. 1 - t < real RATE_PERIOD) (replicate 15 0))
   \<and> length (in_window 0 (admissions [0, 30, 61])) \<le> RATE_LIMIT
   \<and> (\<exists>d > 0. acquire_step 1 (replicate 15 0)
                 = (filter (\<lambda>t. 1 - t < real RATE_PERIOD) (replicate 15 0), Suspended d))"
proof -
  have s: "sorted [0, 30, 61 :: real]" by simp
  have f: "RATE_LIMIT \<le> length (filter (\<lambda>t. 1 - t < real RATE_PERIOD) (replicate 15 0))"
    by (simp add: RATE_LIMIT_def RATE_PERIOD_def)
  show ?thesis
    using s f rate_limit_sliding_window [OF s, of 0 1 "replicate 15 0"] by blast
qed



section \<open>The writes of the tasks of a crawl\<close>

lemma n_processed_simps [simp]:
  "n_processed [] = 0"
  "n_processed (e # es) = (if e = Mut IncProcessed then 1 else 0) + n_processed es"
  "n_processed (xs @ ys) = n_processed xs + n_processed ys"
  by (simp_all add: n_processed_def)

lemma n_counted_simps [simp]:
  "n_counted [] = 0"
  "n_counted (e # es) =
     (if e = Mut IncSkipped \<or> e = Mut IncPotentialSuccessful \<or> e = Mut IncFailed then 1 else 0)
       + n_counted es"
  "n_counted (xs @ ys) = n_counted xs + n_counted ys"
  by (auto simp: n_counted_def)

lemma task_ok_counts: "task_ok es \<Longrightarrow> n_processed es \<le> n_counted es"
  by (cases es) simp_all

lemma task_ok_append: "task_ok xs \<Longrightarrow> task_ok ys \<Longrightarrow> task_ok (xs @ ys)"
proof (induction xs)
  case Nil
  then show ?case by simp
next
  case (Cons e xs)
  from Cons.prems(2) have "n_processed ys \<le> n_counted ys" by (rule task_ok_counts)
  with Cons show ?case by auto
qed

lemma task_ok_no_set_total: "task_ok es \<Longrightarrow> filter is_set_total es = []"
proof (induction es)
  case Nil
  then show ?case by simp
next
  case (Cons e es)
  then have "\<not> sets_counter e" by simp
  then have "\<not> is_set_total e" by (cases e rule: sets_counter.cases) auto
  with Cons show ?case by simp
qed

text \<open>What one fetch writes.\<close>

lemma fetch_loop_task:
  "task_ok (fst (fetch_loop jina_url timeout responses n retries))
   \<and> n_processed (fst (fetch_loop jina_url timeout responses n retries)) = 1
   \<and> n_counted (fst (fetch_loop jina_url timeout responses n retries)) = 1
   \<and> (snd (fetch_loop jina_url timeout responses n retries) = []
       \<or> \<not> archive_rejects (snd (fetch_loop jina_url timeout responses n retries)))"
proof (induction jina_url timeout responses n retries rule: fetch_loop.induct)
  case (1 jina_url timeout responses n retries)
  show ?case
  proof (cases "retries \<le> MAX_RETRIES")
    case False
    then show ?thesis by (subst (1 2 3 4 5) fetch_loop.simps) simp
  next
    case True
    show ?thesis
    proof (cases "attempt retries (responses n)")
      case (Fetched content)
      then obtain t where "content = py_strip t" and "\<not> fetch_rejects content"
        by (auto simp: attempt_def Let_def fetch_rejects_def split: response.splits if_splits)
      then have "\<not> archive_rejects content"
        using stripped_checks_agree [of t] by simp
      with True Fetched show ?thesis
        by (subst (1 2 3 4 5) fetch_loop.simps) simp
    next
      case (Backoff r)
      with True "1.IH"(1) [OF True Backoff] show ?thesis
        by (subst (1 2 3 4 5) fetch_loop.simps) (auto split: prod.splits)
    next
      case (Raised r e)
      show ?thesis
      proof (cases "on_exception r e")
        case None
        with True Raised show ?thesis
          by (subst (1 2 3 4 5) fetch_loop.simps) simp
      next
        case (Some r')
        with True Raised "1.IH"(2) [OF True Raised Some] show ?thesis
          by (subst (1 2 3 4 5) fetch_loop.simps) (auto split: prod.splits)
      qed
    qed
  qed
qed


lemma get_markdown_content_task:
  "task_ok (fst (get_markdown_content urlparse url responses))
   \<and> n_processed (fst (get_markdown_content urlparse url responses))
       = n_counted (fst (get_markdown_content urlparse url responses))
   \<and> n_processed (fst (get_markdown_content urlparse url responses)) \<le> 1"
proof (cases "should_skip_url urlparse url")
  case (Inl e)
  then show ?thesis by (simp add: get_markdown_content_def)
next
  case (Inr skip)
  show ?thesis
  proof (cases skip)
    case True
    with Inr show ?thesis by (simp add: get_markdown_content_def)
  next
    case False
    define j where "j = ''https://r.jina.ai/'' @ transform_arxiv_url url"
    define t where "t = (if is_pdf_url (transform_arxiv_url url) then PDF_TIMEOUT else DEFAULT_TIMEOUT)"
    from Inr False have "get_markdown_content urlparse url responses =
        (Mut (SetCurrentUrl url) # fst (fetch_loop j t responses 0 0),
         Inr (url, snd (fetch_loop j t responses 0 0)))"
      by (simp add: get_markdown_content_def Let_def j_def t_def split: prod.splits)
    with fetch_loop_task [of j t responses 0 0] show ?thesis by simp
  qed
qed

lemma get_markdown_content_returns:
  assumes "snd (get_markdown_content urlparse url responses) = Inr pair"
  shows "n_processed (fst (get_markdown_content urlparse url responses)) = 1
         \<and> n_counted (fst (get_markdown_content urlparse url responses)) = 1
         \<and> fst pair = url
         \<and> (snd pair = [] \<or> \<not> archive_rejects (snd pair))"
proof (cases "should_skip_url urlparse url")
  case (Inl e)
  with assms show ?thesis by (simp add: get_markdown_content_def)
next
  case (Inr skip)
  show ?thesis
  proof (cases skip)
    case True
    with Inr assms show ?thesis by (auto simp: get_markdown_content_def)
  next
    case False
    define j where "j = ''https://r.jina.ai/'' @ transform_arxiv_url url"
    define t where "t = (if is_pdf_url (transform_arxiv_url url) then PDF_TIMEOUT else DEFAULT_TIMEOUT)"
    from Inr False have "get_markdown_content urlparse url responses =
        (Mut (SetCurrentUrl url) # fst (fetch_loop j t responses 0 0),
         Inr (url, snd (fetch_loop j t responses 0 0)))"
      by (simp add: get_markdown_content_def Let_def j_def t_def split: prod.splits)
    with fetch_loop_task [of j t responses 0 0] assms show ?thesis by auto
  qed
qed


text \<open>Interleavings keep the order within each task.\<close>

lemma sum_list_update_nth:
  fixes f :: "'a \<Rightarrow> nat"
  assumes "i < length xs"
  shows "sum_list (map f (xs[i := y])) + f (xs ! i) = sum_list (map f xs) + f y"
  using assms
proof (induction xs arbitrary: i)
  case Nil
  then show ?case by simp
next
  case (Cons x xs)
  then show ?case by (cases i) auto
qed

lemma interleave_counts:
  "n_processed (interleave sched tasks) = sum_list (map n_processed tasks)
   \<and> n_counted (interleave sched tasks) = sum_list (map n_counted tasks)"
proof (induction sched tasks rule: interleave.induct)
  case (1 tasks)
  show ?case by (induction tasks) simp_all
next
  case (2 i sched tasks)
  show ?case
  proof (cases "i < length tasks")
    case False
    with 2 show ?thesis by simp
  next
    case True
    show ?thesis
    proof (cases "tasks ! i")
      case Nil
      with True 2 show ?thesis by simp
    next
      case (Cons e es)
      from True have p: "sum_list (map n_processed (tasks[i := es])) + n_processed (tasks ! i)
          = sum_list (map n_processed tasks) + n_processed es"
        by (rule sum_list_update_nth)
      from True have c: "sum_list (map n_counted (tasks[i := es])) + n_counted (tasks ! i)
          = sum_list (map n_counted tasks) + n_counted es"
        by (rule sum_list_update_nth)
      from True Cons "2.IH"(2) [OF True Cons] p c show ?thesis by auto
    qed
  qed
qed

lemma task_ok_concat: "\<forall>t \<in> set tasks. task_ok t \<Longrightarrow> task_ok (concat tasks)"
  by (induction tasks) (simp_all add: task_ok_append)

lemma sum_list_counts_le:
  "\<forall>t \<in> set tasks. task_ok t \<Longrightarrow> sum_list (map n_processed tasks) \<le> sum_list (map n_counted tasks)"
proof (induction tasks)
  case Nil
  then show ?case by simp
next
  case (Cons t tasks)
  then have "n_processed t \<le> n_counted t" by (simp add: task_ok_counts)
  with Cons show ?case by simp
qed

lemma interleave_task_ok:
  "\<forall>t \<in> set tasks. task_ok t \<Longrightarrow> task_ok (interleave sched tasks)"
proof (induction sched tasks rule: interleave.induct)
  case (1 tasks)
  then show ?case by (simp add: task_ok_concat)
next
  case (2 i sched tasks)
  show ?case
  proof (cases "i < length tasks")
    case False
    with 2 show ?thesis by simp
  next
    case True
    show ?thesis
    proof (cases "tasks ! i")
      case Nil
      with True 2 show ?thesis by simp
    next
      case (Cons e es)
      from True "2.prems" have ok_i: "task_ok (tasks ! i)" by simp
      with Cons have e: "\<not> sets_counter e" and es: "task_ok es" by simp_all
      from es "2.prems" have all': "\<forall>t \<in> set (tasks[i := es]). task_ok t"
        by (auto dest: set_update_subset_insert [THEN subsetD])
      from "2.IH"(2) [OF True Cons all'] have rest: "task_ok (interleave sched (tasks[i := es]))" .
      have "interleave (i # sched) tasks = e # interleave sched (tasks[i := es])"
        using True Cons by simp
      then have "n_processed (interleave (i # sched) tasks) = sum_list (map n_processed tasks)"
        and "n_counted (interleave (i # sched) tasks) = sum_list (map n_counted tasks)"
        using interleave_counts [of "i # sched" tasks] by simp_all
      moreover from "2.prems" have "sum_list (map n_processed tasks) \<le> sum_list (map n_counted tasks)"
        by (rule sum_list_counts_le)
      ultimately have "n_processed (e # interleave sched (tasks[i := es]))
          \<le> n_counted (e # interleave sched (tasks[i := es]))"
        using True Cons by simp
      with e rest True Cons show ?thesis by simp
    qed
  qed
qed

text \<open>The records a task passes through.\<close>

lemma snapshots_append:
  "snapshots (xs @ ys) p = snapshots xs p @ snapshots ys (final_progress xs p)"
  by (induction xs p rule: snapshots.induct) simp_all

lemma final_progress_append:
  "final_progress (xs @ ys) p = final_progress ys (final_progress xs p)"
  by (induction xs p rule: final_progress.induct) simp_all

lemma final_progress_task:
  assumes "task_ok es"
  shows "processed (final_progress es p) = processed p + n_processed es
         \<and> counted (final_progress es p) = counted p + n_counted es
         \<and> total (final_progress es p) = total p"
  using assms
proof (induction es arbitrary: p)
  case Nil
  then show ?case by simp
next
  case (Cons e es)
  then have ok: "task_ok es" and e: "\<not> sets_counter e" by simp_all
  show ?case
  proof (cases e)
    case (Mut m)
    with e Cons.IH [OF ok, of "apply_mutation m p"] show ?thesis
      by (cases m) (auto simp: counted_def)
  next
    case AcquireRateLimit
    with Cons.IH [OF ok, of p] show ?thesis by simp
  next
    case (Get u t)
    with Cons.IH [OF ok, of p] show ?thesis by simp
  next
    case (Sleep d)
    with Cons.IH [OF ok, of p] show ?thesis by simp
  qed
qed

lemma snapshots_task:
  assumes "task_ok es" and "counted p + n_counted es \<le> processed p + n_processed es"
  shows "\<forall>q \<in> set (snapshots es p).
           counted q \<le> processed q \<and> total q = total p
           \<and> processed q \<le> processed p + n_processed es"
  using assms
proof (induction es arbitrary: p)
  case Nil
  then show ?case by simp
next
  case (Cons e es)
  then have ok: "task_ok es" and e: "\<not> sets_counter e" by simp_all
  from ok have le: "n_processed es \<le> n_counted es" by (rule task_ok_counts)
  show ?case
  proof (cases e)
    case (Mut m)
    have pre: "counted (apply_mutation m p) + n_counted es
        \<le> processed (apply_mutation m p) + n_processed es"
      using Cons.prems(2) e Mut by (cases m) (auto simp: counted_def)
    have here: "counted (apply_mutation m p) \<le> processed (apply_mutation m p)
        \<and> total (apply_mutation m p) = total p
        \<and> processed (apply_mutation m p) \<le> processed p + n_processed (e # es)"
      using pre le e Mut by (cases m) (auto simp: counted_def)
    have "processed (apply_mutation m p) + n_processed es = processed p + n_processed (e # es)"
      using e Mut by (cases m) auto
    with Cons.IH [OF ok pre] here Mut show ?thesis by auto
  next
    case AcquireRateLimit
    with Cons.IH [OF ok, of p] Cons.prems(2) show ?thesis by simp
  next
    case (Get u t)
    with Cons.IH [OF ok, of p] Cons.prems(2) show ?thesis by simp
  next
    case (Sleep d)
    with Cons.IH [OF ok, of p] Cons.prems(2) show ?thesis by simp
  qed
qed

text \<open>The batches and the archive.\<close>

lemma batches_concat: "0 < n \<Longrightarrow> concat (batches n xs) = xs"
proof (induction n xs rule: batches.induct)
  case (1 batch_size xs)
  then show ?case by (subst batches.simps) auto
qed


lemma gather_Inr:
  "gather rs = Inr xs \<Longrightarrow> rs = map Inr xs"
proof (induction rs arbitrary: xs rule: gather.induct)
  case 1
  then show ?case by simp
next
  case (2 e rs)
  then show ?case by simp
next
  case (3 x rs)
  then show ?case by (auto split: sum.splits)
qed

lemma tasks_of_batch:
  "\<forall>t \<in> set (map fst (map (\<lambda>(j, link). get_markdown_content urlparse link (net (i + j))) (enumerate k batch))).
      task_ok t"
proof (induction batch arbitrary: k)
  case Nil
  show ?case by simp
next
  case (Cons link batch)
  have "task_ok (fst (get_markdown_content urlparse link (net (i + k))))"
    using get_markdown_content_task [of urlparse link "net (i + k)"] by simp
  with Cons [of "Suc k"] show ?case by simp
qed

lemma tasks_of_batch_counts:
  "sum_list (map n_processed (map fst (map (\<lambda>(j, link). get_markdown_content urlparse link (net (i + j))) (enumerate k batch))))
     = sum_list (map n_counted (map fst (map (\<lambda>(j, link). get_markdown_content urlparse link (net (i + j))) (enumerate k batch))))"
proof (induction batch arbitrary: k)
  case Nil
  show ?case by simp
next
  case (Cons link batch)
  have "n_processed (fst (get_markdown_content urlparse link (net (i + k))))
      = n_counted (fst (get_markdown_content urlparse link (net (i + k))))"
    using get_markdown_content_task [of urlparse link "net (i + k)"] by simp
  with Cons [of "Suc k"] show ?case by simp
qed

lemma tasks_of_batch_bound:
  "sum_list (map n_processed (map fst (map (\<lambda>(j, link). get_markdown_content urlparse link (net (i + j))) (enumerate k batch))))
     \<le> length batch"
proof (induction batch arbitrary: k)
  case Nil
  show ?case by simp
next
  case (Cons link batch)
  have "n_processed (fst (get_markdown_content urlparse link (net (i + k)))) \<le> 1"
    using get_markdown_content_task [of urlparse link "net (i + k)"] by simp
  with Cons [of "Suc k"] show ?case by simp
qed

lemma tasks_of_batch_returns:
  assumes "gather (map snd (map (\<lambda>(j, link). get_markdown_content urlparse link (net (i + j))) (enumerate k batch)))
             = Inr rs"
  shows "sum_list (map n_processed (map fst (map (\<lambda>(j, link). get_markdown_content urlparse link (net (i + j))) (enumerate k batch))))
           = length batch
         \<and> (\<forall>pair \<in> set rs. snd pair = [] \<or> \<not> archive_rejects (snd pair))"
  using assms
proof (induction batch arbitrary: k rs)
  case Nil
  then show ?case by simp
next
  case (Cons link batch)
  from Cons.prems obtain pair rs' where
    p: "snd (get_markdown_content urlparse link (net (i + k))) = Inr pair"
    and g: "gather (map snd (map (\<lambda>(j, link). get_markdown_content urlparse link (net (i + j)))
              (enumerate (Suc k) batch))) = Inr rs'"
    and rs: "rs = pair # rs'"
    by (cases "snd (get_markdown_content urlparse link (net (i + k)))")
       (auto split: sum.splits)
  from get_markdown_content_returns [OF p] Cons.IH [OF g] rs show ?case by simp
qed

lemma run_batches_task:
  "task_ok (fst (run_batches urlparse scheds bs i net))
   \<and> n_processed (fst (run_batches urlparse scheds bs i net))
       = n_counted (fst (run_batches urlparse scheds bs i net))
   \<and> n_processed (fst (run_batches urlparse scheds bs i net)) \<le> length (concat bs)"
proof (induction bs arbitrary: scheds i)
  case Nil
  show ?case by simp
next
  case (Cons batch rest)
  define tasks where
    "tasks = map (\<lambda>(j, link). get_markdown_content urlparse link (net (i + j))) (enumerate 0 batch)"
  define sched where "sched = (case scheds of [] \<Rightarrow> [] | s # _ \<Rightarrow> s)"
  define pause where "pause = (if rest \<noteq> [] then [Sleep (RATE_PERIOD div 2)] else [])"
  define here where "here = interleave sched (map fst tasks)"
  define later where "later = fst (run_batches urlparse (tl scheds) rest (i + length batch) net)"
  have unfold: "fst (run_batches urlparse scheds (batch # rest) i net) = here
      \<or> fst (run_batches urlparse scheds (batch # rest) i net) = here @ pause @ later"
    by (simp add: tasks_def sched_def pause_def here_def later_def Let_def
        split: prod.splits sum.splits)
  have all: "\<forall>t \<in> set (map fst tasks). task_ok t"
    unfolding tasks_def by (rule tasks_of_batch)
  then have a: "task_ok here" unfolding here_def by (rule interleave_task_ok)
  have b: "n_processed here = n_counted here" "n_processed here \<le> length batch"
    using interleave_counts [of sched "map fst tasks"]
      tasks_of_batch_counts [of urlparse net i 0 batch]
      tasks_of_batch_bound [of urlparse net i 0 batch]
    by (simp_all add: tasks_def here_def)
  have c: "task_ok pause" "n_processed pause = 0" "n_counted pause = 0"
    by (simp_all add: pause_def)
  have ih: "task_ok later" "n_processed later = n_counted later"
    "n_processed later \<le> length (concat rest)"
    using Cons.IH [of "tl scheds" "i + length batch"] by (simp_all add: later_def)
  from a c(1) ih(1) have d: "task_ok (here @ pause @ later)"
    by (simp add: task_ok_append)
  from unfold show ?case
  proof
    assume "fst (run_batches urlparse scheds (batch # rest) i net) = here"
    with a b show ?thesis by simp
  next
    assume "fst (run_batches urlparse scheds (batch # rest) i net) = here @ pause @ later"
    with d b c ih show ?thesis by simp
  qed
qed

lemma run_batches_returns:
  assumes "snd (run_batches urlparse scheds bs i net) = Inr results"
  shows "n_processed (fst (run_batches urlparse scheds bs i net)) = length (concat bs)
         \<and> (\<forall>pair \<in> set results. snd pair = [] \<or> \<not> archive_rejects (snd pair))"
  using assms
proof (induction bs arbitrary: scheds i results)
  case Nil
  then show ?case by simp
next
  case (Cons batch rest)
  define tasks where
    "tasks = map (\<lambda>(j, link). get_markdown_content urlparse link (net (i + j))) (enumerate 0 batch)"
  define sched where "sched = (case scheds of [] \<Rightarrow> [] | s # _ \<Rightarrow> s)"
  define pause where "pause = (if rest \<noteq> [] then [Sleep (RATE_PERIOD div 2)] else [])"
  define here where "here = interleave sched (map fst tasks)"
  define later where "later = run_batches urlparse (tl scheds) rest (i + length batch) net"
  from Cons.prems obtain rs rs' where
    g: "gather (map snd tasks) = Inr rs"
    and l: "snd later = Inr rs'"
    and res: "results = rs @ rs'"
    and eff: "fst (run_batches urlparse scheds (batch # rest) i net) = here @ pause @ fst later"
    by (auto simp: tasks_def sched_def pause_def here_def later_def Let_def
        split: prod.splits sum.splits)
  have b: "n_processed here = length batch"
    "\<forall>pair \<in> set rs. snd pair = [] \<or> \<not> archive_rejects (snd pair)"
    using interleave_counts [of sched "map fst tasks"]
      tasks_of_batch_returns [OF g [unfolded tasks_def]]
    by (simp_all add: tasks_def here_def)
  have c: "n_processed pause = 0" by (simp add: pause_def)
  have ih: "n_processed (fst later) = length (concat rest)"
    "\<forall>pair \<in> set rs'. snd pair = [] \<or> \<not> archive_rejects (snd pair)"
    using Cons.IH [OF l [unfolded later_def]] by (simp_all add: later_def)
  from b c ih res eff show ?case by auto
qed


lemma archive_effects_clean:
  assumes "\<forall>pair \<in> set contents. snd pair = [] \<or> \<not> archive_rejects (snd pair)"
  shows "task_ok (archive_effects nfkd hash contents)
         \<and> n_processed (archive_effects nfkd hash contents) = 0
         \<and> n_counted (archive_effects nfkd hash contents) = 0"
proof -
  have "task_ok (concat (map (\<lambda>pair. action_effects (entry_action nfkd hash pair)) contents))
      \<and> n_processed (concat (map (\<lambda>pair. action_effects (entry_action nfkd hash pair)) contents)) = 0
      \<and> n_counted (concat (map (\<lambda>pair. action_effects (entry_action nfkd hash pair)) contents)) = 0"
    using assms
  proof (induction contents)
    case Nil
    then show ?case by simp
  next
    case (Cons pair contents)
    then have "snd pair = [] \<or> \<not> archive_rejects (snd pair)" by simp
    then have "action_effects (entry_action nfkd hash pair) = []
        \<or> action_effects (entry_action nfkd hash pair) = [Mut IncSuccessful]"
      by (cases pair) (auto simp: entry_action_def)
    with Cons show ?case by (auto simp: task_ok_append)
  qed
  then show ?thesis by (simp add: archive_effects_def)
qed



section \<open>The invariant of the job record\<close>

lemma run_effects_other: "k' \<noteq> k \<Longrightarrow> run_effects k es pt k' = pt k'"
proof (induction es arbitrary: pt)
  case Nil
  then show ?case by simp
next
  case (Cons e es)
  then show ?case by (cases e) (simp_all add: mutate_def)
qed

lemma run_effects_final:
  "tracker_get (run_effects k es pt) k = final_progress es (tracker_get pt k)"
proof (induction es arbitrary: pt)
  case Nil
  then show ?case by simp
next
  case (Cons e es)
  then show ?case by (cases e) (simp_all add: mutate_def tracker_get_def)
qed

lemma run_effects_append:
  "run_effects k (xs @ ys) pt = run_effects k ys (run_effects k xs pt)"
  by (induction xs arbitrary: pt) simp_all


text \<open>The effects of a crawl: it stops after the seed fetch, or it sets the total and runs
  the batches.\<close>

lemma scrape_effects_seed_raises:
  assumes "snd (get_markdown_content urlparse url (net 0)) = Inl e"
  shows "scrape_effects nfkd hash urlparse url net scheds page
           = fst (get_markdown_content urlparse url (net 0))"
  using assms
  by (cases "get_markdown_content urlparse url (net 0)")
     (simp add: scrape_effects_def crawl_def)

lemma scrape_effects_page_raises:
  "scrape_effects nfkd hash urlparse url net scheds (Inl msg)
     = fst (get_markdown_content urlparse url (net 0))"
  by (cases "get_markdown_content urlparse url (net 0)")
     (simp add: scrape_effects_def crawl_def split: sum.splits)

lemma scrape_effects_discovery_raises:
  assumes "discover_links urlparse hrefs = Inl e"
  shows "scrape_effects nfkd hash urlparse url net scheds (Inr hrefs)
           = fst (get_markdown_content urlparse url (net 0))"
  using assms
  by (cases "get_markdown_content urlparse url (net 0)")
     (simp add: scrape_effects_def crawl_def split: sum.splits)

lemma scrape_effects_ran:
  assumes oc: "snd (get_markdown_content urlparse url (net 0)) = Inr oc"
    and found: "discover_links urlparse hrefs = Inr found"
  shows "\<exists>tail.
           scrape_effects nfkd hash urlparse url net scheds (Inr hrefs)
             = fst (get_markdown_content urlparse url (net 0))
                 @ [Mut (SetTotal (length found + 1)), Mut (SetProcessed 1)] @ tail
           \<and> task_ok tail \<and> n_processed tail = n_counted tail
           \<and> n_processed tail \<le> length found"
proof -
  define E0 where "E0 = fst (get_markdown_content urlparse url (net 0))"
  have g: "get_markdown_content urlparse url (net 0) = (E0, Inr oc)"
    using oc by (cases "get_markdown_content urlparse url (net 0)") (simp add: E0_def)
  obtain effs r where rb: "run_batches urlparse scheds (batches 10 found) (Suc 0) net = (effs, r)"
    by (cases "run_batches urlparse scheds (batches 10 found) (Suc 0) net")
  have t: "task_ok effs" "n_processed effs = n_counted effs" "n_processed effs \<le> length found"
    using run_batches_task [of urlparse scheds "batches 10 found" "Suc 0" net]
      batches_concat [of 10 found]
    by (simp_all add: rb)
  show ?thesis
  proof (cases r)
    case (Inl e)
    have "scrape_effects nfkd hash urlparse url net scheds (Inr hrefs)
        = E0 @ [Mut (SetTotal (length found + 1)), Mut (SetProcessed 1)] @ effs"
      by (simp add: scrape_effects_def crawl_def g found rb Inl)
    with t show ?thesis unfolding E0_def by blast
  next
    case (Inr results)
    have e: "scrape_effects nfkd hash urlparse url net scheds (Inr hrefs)
        = E0 @ [Mut (SetTotal (length found + 1)), Mut (SetProcessed 1)]
            @ (effs @ archive_effects nfkd hash (oc # results))"
      by (simp add: scrape_effects_def crawl_def g found rb Inr)
    have "snd oc = [] \<or> \<not> archive_rejects (snd oc)"
      using get_markdown_content_returns [OF oc] by simp
    moreover have "\<forall>pair \<in> set results. snd pair = [] \<or> \<not> archive_rejects (snd pair)"
      using run_batches_returns [of urlparse scheds "batches 10 found" "Suc 0" net results]
      by (simp add: rb Inr)
    ultimately have "\<forall>pair \<in> set (oc # results). snd pair = [] \<or> \<not> archive_rejects (snd pair)"
      by simp
    then have a: "task_ok (archive_effects nfkd hash (oc # results))"
      "n_processed (archive_effects nfkd hash (oc # results)) = 0"
      "n_counted (archive_effects nfkd hash (oc # results)) = 0"
      using archive_effects_clean [of "oc # results" nfkd hash] by simp_all
    have "task_ok (effs @ archive_effects nfkd hash (oc # results))"
      using t(1) a(1) by (rule task_ok_append)
    moreover have "n_processed (effs @ archive_effects nfkd hash (oc # results))
        = n_counted (effs @ archive_effects nfkd hash (oc # results))"
      using t(2) a(2,3) by simp
    moreover have "n_processed (effs @ archive_effects nfkd hash (oc # results)) \<le> length found"
      using t(3) a(2) by simp
    ultimately show ?thesis using e unfolding E0_def by blast
  qed
qed

lemma seed_snapshots:
  assumes "q \<in> set (snapshots (fst (get_markdown_content urlparse url responses)) default_progress)"
  shows "counted q \<le> processed q \<and> total q = 0"
proof -
  have "counted default_progress + n_counted (fst (get_markdown_content urlparse url responses))
      \<le> processed default_progress + n_processed (fst (get_markdown_content urlparse url responses))"
    using get_markdown_content_task [of urlparse url responses]
    by (simp add: default_progress_def counted_def)
  with get_markdown_content_task [of urlparse url responses] assms
    snapshots_task [of "fst (get_markdown_content urlparse url responses)" default_progress]
  show ?thesis by (auto simp: default_progress_def)
qed

lemma ran_snapshots:
  assumes oc: "snd (get_markdown_content urlparse url (net 0)) = Inr oc"
    and found: "discover_links urlparse hrefs = Inr found"
    and q: "q \<in> set (snapshots (scrape_effects nfkd hash urlparse url net scheds (Inr hrefs))
                      default_progress)"
  shows "progress_inv_after_init q"
proof -
  define E0 where "E0 = fst (get_markdown_content urlparse url (net 0))"
  define n where "n = length found"
  obtain tail where eff: "scrape_effects nfkd hash urlparse url net scheds (Inr hrefs)
        = E0 @ [Mut (SetTotal (n + 1)), Mut (SetProcessed 1)] @ tail"
    and tl: "task_ok tail" "n_processed tail = n_counted tail" "n_processed tail \<le> n"
    using scrape_effects_ran [where net = net and urlparse = urlparse and url = url, OF oc found,
        of nfkd hash scheds]
    unfolding E0_def n_def by blast
  define p0 where "p0 = final_progress E0 default_progress"
  define p2 where "p2 = p0\<lparr>total := n + 1, processed := 1\<rparr>"
  have seed: "task_ok E0" "n_processed E0 = 1" "n_counted E0 = 1"
    using get_markdown_content_task [of urlparse url "net 0"]
      get_markdown_content_returns [OF oc]
    by (simp_all add: E0_def)
  have p0: "processed p0 = 1" "counted p0 = 1" "total p0 = 0"
    using final_progress_task [OF seed(1), of default_progress] seed(2,3)
    by (simp_all add: p0_def default_progress_def counted_def)
  have split: "snapshots (scrape_effects nfkd hash urlparse url net scheds (Inr hrefs)) default_progress
      = snapshots E0 default_progress @ [p0\<lparr>total := n + 1\<rparr>, p2] @ snapshots tail p2"
    by (simp add: eff snapshots_append p0_def p2_def)
  have p2: "processed p2 = 1" "counted p2 = 1" "total p2 = n + 1"
    using p0 by (simp_all add: p2_def counted_def)
  from q split consider
      (seed) "q \<in> set (snapshots E0 default_progress)"
    | (init1) "q = p0\<lparr>total := n + 1\<rparr>"
    | (init2) "q = p2"
    | (tail) "q \<in> set (snapshots tail p2)"
    by auto
  then show ?thesis
  proof cases
    case seed
    then show ?thesis
      using seed_snapshots [of q urlparse url "net 0"]
      by (simp add: E0_def progress_inv_after_init_def)
  next
    case init1
    with p0 show ?thesis by (simp add: progress_inv_after_init_def counted_def)
  next
    case init2
    with p2 show ?thesis by (simp add: progress_inv_after_init_def)
  next
    case tail
    have "counted p2 + n_counted tail \<le> processed p2 + n_processed tail"
      using p2 tl by simp
    from snapshots_task [OF tl(1) this] tail p2 tl
    show ?thesis by (auto simp: progress_inv_after_init_def)
  qed
qed

lemma crawl_snapshots:
  assumes q: "q \<in> set (snapshots (scrape_effects nfkd hash urlparse url net scheds page)
                      default_progress)"
  shows "progress_inv_after_init q"
proof -
  have stopped: "progress_inv_after_init q"
    if "scrape_effects nfkd hash urlparse url net scheds page
          = fst (get_markdown_content urlparse url (net 0))"
    using that q seed_snapshots [of q urlparse url "net 0"]
    by (simp add: progress_inv_after_init_def)
  show ?thesis
  proof (cases "snd (get_markdown_content urlparse url (net 0))")
    case (Inl e)
    then show ?thesis by (intro stopped scrape_effects_seed_raises)
  next
    case oc: (Inr oc)
    show ?thesis
    proof (cases page)
      case (Inl msg)
      then show ?thesis using stopped scrape_effects_page_raises by simp
    next
      case hrefs: (Inr hrefs)
      show ?thesis
      proof (cases "discover_links urlparse hrefs")
        case (Inl e)
        then show ?thesis using stopped hrefs scrape_effects_discovery_raises by simp
      next
        case (Inr found)
        from ran_snapshots [where net = net and urlparse = urlparse and url = url, OF oc Inr]
          q hrefs
        show ?thesis by simp
      qed
    qed
  qed
qed

text \<open>A call that has the record of its key to itself.\<close>

lemma interleave_alone: "interleave turns [xs, []] = xs"
proof (induction turns arbitrary: xs)
  case Nil
  show ?case by simp
next
  case (Cons i turns)
  show ?case
  proof (cases i)
    case 0
    with Cons show ?thesis by (cases xs) simp_all
  next
    case (Suc j)
    with Cons show ?thesis by (cases j) simp_all
  qed
qed

lemma record_snapshots_writes:
  "record_snapshots (writes_of es @ ws) p = snapshots es p @ record_snapshots ws (final_progress es p)"
  by (induction es p rule: snapshots.induct) simp_all

lemma record_snapshots_call: "record_snapshots (call_writes es) p = snapshots es p"
  by (simp add: call_writes_def record_snapshots_writes)

text \<open>
  C1, as stated: at every snapshot \<open>processed \<le> total\<close> and the three outcome counters sum
  to at most \<open>processed\<close>. Two runs say otherwise. In a single crawl the total is set only
  after the links of the seed page are known (line 444), when the seed fetch has already
  counted the seed as processed: with a service that answers 500 and a seed page without
  links, a snapshot has \<open>processed = 1\<close> and \<open>total = 0\<close>. And the record is shared by the
  calls with the same seed URL, whose hash is the key (line 424): when a second call fetches
  the seed between the seed fetch of the first and its line 445, the first sets \<open>processed\<close>
  back to 1 while \<open>failed\<close> is 2.
\<close>

theorem progress_invariant_counterexample:
  "\<not> list_all progress_inv
       (scrape_snapshots nfkd_of_ascii hash_42 urlparse_accepts ''http://a.org/'' ''job''
          (net_always (Response 500 [])) [] (Inr []) [] [] empty_world)
   \<and> \<not> list_all progress_inv_after_init
       (scrape_snapshots nfkd_of_ascii hash_42 urlparse_accepts ''http://a.org/'' ''job''
          (net_always (Response 500 [])) [] (Inr [])
          (call_writes (scrape_effects nfkd_of_ascii hash_42 urlparse_accepts ''http://a.org/''
             (net_always (Response 500 [])) [] (Inr [])))
          [0, 0, 0, 1, 1, 1, 0, 0] empty_world)"
  by code_simp

text \<open>
  C1, amended: for every call of \<open>scrape_url\<close> that finds no record, or the default record,
  under its key and during which no other call writes to that record, whatever the service
  answers, whatever the seed page holds (also when fetching or reading it raises) and
  however the fetches of a batch interleave, every snapshot, taken after any write to the
  record, satisfies \<open>provisional_success + skipped + failed \<le> processed\<close>, and satisfies
  \<open>processed \<le> total\<close> once the total has been set (while it is still 0 the seed is being
  fetched and \<open>processed\<close> reaches 1).
\<close>

theorem progress_invariant_single_call:
  assumes "tracker_get (progress_tracker w) tracker_id = default_progress"
  shows "list_all progress_inv_after_init
           (scrape_snapshots nfkd hash urlparse url tracker_id net scheds page [] turns w)"
  using assms crawl_snapshots [of _ nfkd hash urlparse url net scheds page]
  by (simp add: scrape_snapshots_def interleave_alone record_snapshots_call list_all_iff)

theorem progress_invariant_single_call_witness:
  "tracker_get (progress_tracker empty_world) ''job'' = default_progress
   \<and> list_all progress_inv_after_init
       (scrape_snapshots nfkd_of_ascii hash_42 urlparse_accepts ''http://a.org/'' ''job''
          (net_always (Response 500 [])) [] (Inr [''http://b.org/'']) [] [0, 1, 0] empty_world)"
proof -
  have h: "tracker_get (progress_tracker empty_world) ''job'' = default_progress"
    by (simp add: empty_world_def tracker_get_def)
  show ?thesis
    using h progress_invariant_single_call [OF h, of nfkd_of_ascii hash_42 urlparse_accepts
        "''http://a.org/''" "net_always (Response 500 [])" "[]" "Inr [''http://b.org/'']" "[0, 1, 0]"]
    by blast
qed



section \<open>The crawl: total, archive and response\<close>

lemma discover_links_parsed:
  assumes "\<forall>href \<in> set hrefs. prefix ''http'' href \<longrightarrow> urlparse href = None"
  shows "discover_links urlparse hrefs = Inr (filter valid_link hrefs)"
  using assms
  by (induction hrefs) (simp_all add: should_skip_url_def valid_link_def)

lemma get_markdown_content_parsed:
  assumes "urlparse url = None"
  shows "\<exists>content. snd (get_markdown_content urlparse url responses) = Inr (url, content)"
  using assms
  by (simp add: get_markdown_content_def should_skip_url_def Let_def split: prod.splits)

text \<open>
  C7, as stated: a seed page with 12 anchor targets that start with \<open>http\<close> and match no
  skip pattern, and 3 that match one, gives the total 13. Not when one of the 12 is a string
  that \<open>urlparse\<close> does not take: line 123 of \<open>should_skip_url\<close> raises \<open>ValueError\<close> on it,
  the comprehension of lines 438 to 441 ends with that exception, and \<open>scrape_url\<close> answers
  with the status 500 without ever setting the total. Here the seed page has 11 targets
  \<open>http://a.org/\<close>, the target \<open>http://[::1\<close> with its bracket left open, and 3 targets on
  \<open>x.com\<close>.
\<close>

theorem total_counterexample:
  "length (filter valid_link
      (replicate 11 ''http://a.org/'' @ [''http://[::1''] @ replicate 3 ''http://x.com/'')) = 12
   \<and> length (filter matches_skip_pattern
      (replicate 11 ''http://a.org/'' @ [''http://[::1''] @ replicate 3 ''http://x.com/'')) = 3
   \<and> filter is_set_total
        (scrape_effects nfkd_of_ascii hash_42 urlparse_brackets ''http://seed.org/''
           (net_always (Response 500 [])) []
           (Inr (replicate 11 ''http://a.org/'' @ [''http://[::1''] @ replicate 3 ''http://x.com/'')))
        = []
   \<and> fst (scrape_url ''/tmp'' nfkd_of_ascii hash_42 urlparse_brackets ''http://seed.org/'' ''k'' ''j''
           (net_always (Response 500 [])) []
           (Inr (replicate 11 ''http://a.org/'' @ [''http://[::1''] @ replicate 3 ''http://x.com/''))
           empty_world)
        = Inl (HTTPException 500 ''Error scraping URL: Invalid IPv6 URL'')"
  by code_simp

text \<open>
  C7, amended: when \<open>urlparse\<close> takes the seed URL and every anchor target of the seed page
  that starts with \<open>http\<close>, and the markup has 12 anchor targets that start with \<open>http\<close> and
  match no skip pattern, and 3 anchor targets that match one, the crawl sets the total once,
  to 13, and the record ends with that total; the skipped links are left out when the links
  are discovered, before the total is computed.
\<close>

theorem total_counts_discovered_links:
  assumes "urlparse url = None"
    and "\<forall>href \<in> set hrefs. prefix ''http'' href \<longrightarrow> urlparse href = None"
    and "length (filter valid_link hrefs) = 12"
    and "length (filter matches_skip_pattern hrefs) = 3"
  shows "filter is_set_total (scrape_effects nfkd hash urlparse url net scheds (Inr hrefs))
           = [Mut (SetTotal 13)]
         \<and> total (final_progress (scrape_effects nfkd hash urlparse url net scheds (Inr hrefs)) p) = 13"
proof -
  define E0 where "E0 = fst (get_markdown_content urlparse url (net 0))"
  obtain content where oc: "snd (get_markdown_content urlparse url (net 0)) = Inr (url, content)"
    using get_markdown_content_parsed [of urlparse url "net 0"] assms(1) by blast
  have found: "discover_links urlparse hrefs = Inr (filter valid_link hrefs)"
    using assms(2) by (rule discover_links_parsed)
  obtain tail where eff: "scrape_effects nfkd hash urlparse url net scheds (Inr hrefs)
        = E0 @ [Mut (SetTotal 13), Mut (SetProcessed 1)] @ tail"
    and tl: "task_ok tail"
    using scrape_effects_ran [where net = net and urlparse = urlparse and url = url, OF oc found,
        of nfkd hash scheds] assms(3)
    unfolding E0_def by auto
  have seed: "task_ok E0"
    using get_markdown_content_task [of urlparse url "net 0"] by (simp add: E0_def)
  have a: "filter is_set_total (scrape_effects nfkd hash urlparse url net scheds (Inr hrefs))
      = [Mut (SetTotal 13)]"
    using task_ok_no_set_total [OF seed] task_ok_no_set_total [OF tl] by (simp add: eff)
  have "total (final_progress tail ((final_progress E0 p)\<lparr>total := 13, processed := 1\<rparr>)) = 13"
    using final_progress_task [OF tl, of "(final_progress E0 p)\<lparr>total := 13, processed := 1\<rparr>"]
    by simp
  then have b: "total (final_progress (scrape_effects nfkd hash urlparse url net scheds (Inr hrefs)) p) = 13"
    by (simp add: eff final_progress_append)
  from a b show ?thesis by simp
qed

theorem total_counts_discovered_links_witness:
  "urlparse_brackets ''http://seed.org/'' = None
   \<and> urlparse_brackets ''http://a.org/'' = None \<and> urlparse_brackets ''http://x.com/'' = None
   \<and> length (filter valid_link (replicate 12 ''http://a.org/'' @ replicate 3 ''http://x.com/'')) = 12
   \<and> length (filter matches_skip_pattern
        (replicate 12 ''http://a.org/'' @ replicate 3 ''http://x.com/'')) = 3
   \<and> filter is_set_total
        (scrape_effects nfkd_of_ascii hash_42 urlparse_brackets ''http://seed.org/''
           (net_always (Response 500 [])) []
           (Inr (replicate 12 ''http://a.org/'' @ replicate 3 ''http://x.com/''))) = [Mut (SetTotal 13)]
   \<and> total (final_progress
        (scrape_effects nfkd_of_ascii hash_42 urlparse_brackets ''http://seed.org/''
           (net_always (Response 500 [])) []
           (Inr (replicate 12 ''http://a.org/'' @ replicate 3 ''http://x.com/''))) default_progress) = 13"
proof -
  have s: "urlparse_brackets ''http://seed.org/'' = None" by code_simp
  have pa: "urlparse_brackets ''http://a.org/'' = None" by code_simp
  have px: "urlparse_brackets ''http://x.com/'' = None" by code_simp
  have a: "valid_link ''http://a.org/''" by code_simp
  have x: "\<not> valid_link ''http://x.com/''" by code_simp
  have ma: "\<not> matches_skip_pattern ''http://a.org/''" by code_simp
  have mx: "matches_skip_pattern ''http://x.com/''" by code_simp
  have h0: "\<forall>href \<in> set (replicate 12 ''http://a.org/'' @ replicate 3 ''http://x.com/'').
      prefix ''http'' href \<longrightarrow> urlparse_brackets href = None"
    using pa px by auto
  have h1: "length (filter valid_link (replicate 12 ''http://a.org/'' @ replicate 3 ''http://x.com/'')) = 12"
    using a x by simp
  have h2: "length (filter matches_skip_pattern
      (replicate 12 ''http://a.org/'' @ replicate 3 ''http://x.com/'')) = 3"
    using ma mx by simp
  show ?thesis
    using s pa px h1 h2 total_counts_discovered_links [OF s h0 h1 h2, of nfkd_of_ascii hash_42
        "net_always (Response 500 [])" "[]" default_progress]
    by blast
qed


text \<open>
  C8: when no pair survives the archival check, that is when every content is empty or
  rejected, \<open>create_zip_file\<close> raises the exception \<open>No valid content to download\<close> and writes
  no archive: the archives of the file system are what they were.
\<close>

theorem no_valid_content_no_archive:
  assumes "\<forall>pair \<in> set contents. snd pair = [] \<or> archive_rejects (snd pair)"
  shows "fst (create_zip_file tmp nfkd hash contents job_id tracker_id (pt, fs))
           = Inl (Exception ''No valid content to download'')
         \<and> zips (snd (snd (create_zip_file tmp nfkd hash contents job_id tracker_id (pt, fs)))) = zips fs"
proof -
  from assms have "filter is_written (map (entry_action nfkd hash) contents) = []"
  proof (induction contents)
    case Nil
    then show ?case by simp
  next
    case (Cons pair contents)
    then have "snd pair = [] \<or> archive_rejects (snd pair)" by simp
    then have "\<not> is_written (entry_action nfkd hash pair)"
      by (cases pair) (auto simp: entry_action_def)
    with Cons show ?case by simp
  qed
  then show ?thesis by (simp add: create_zip_file_def Let_def)
qed

theorem no_valid_content_no_archive_witness:
  "archive_rejects ''too short''
   \<and> fst (create_zip_file ''/tmp'' nfkd_of_ascii hash_42
            [(''http://a.org/'', []), (''http://b.org/'', ''too short'')] ''j'' ''k''
            (Map.empty, files empty_world))
        = Inl (Exception ''No valid content to download'')
   \<and> zips (snd (snd (create_zip_file ''/tmp'' nfkd_of_ascii hash_42
            [(''http://a.org/'', []), (''http://b.org/'', ''too short'')] ''j'' ''k''
            (Map.empty, files empty_world)))) = zips (files empty_world)"
proof -
  have r: "archive_rejects ''too short''" by code_simp
  then have h: "\<forall>pair \<in> set [(''http://a.org/'', []), (''http://b.org/'', ''too short'')].
       snd pair = [] \<or> archive_rejects (snd pair)" by simp
  show ?thesis
    using r no_valid_content_no_archive [OF h, of "''/tmp''" nfkd_of_ascii hash_42 "''j''" "''k''"
        Map.empty "files empty_world"]
    by blast
qed

text \<open>
  C10: when \<open>create_zip_file\<close> raises, \<open>scrape_url\<close> still returns a normal response with the
  job id and the counts of the record as it stands; the job id is not entered into
  \<open>results_tracker\<close>, so a download request for it (a fresh id, not in the tracker before)
  is answered with 404 \<open>Results not found\<close>.
\<close>

theorem archive_failure_is_swallowed:
  assumes "crawl urlparse url page net scheds = (effs, Inr (found, results))"
    and "fst (create_zip_file tmp nfkd hash results job_id tracker_id
                 (run_effects tracker_id effs (progress_tracker w), files w)) = Inl e"
    and "results_tracker w job_id = None"
  shows "(\<exists>counts.
            fst (scrape_url tmp nfkd hash urlparse url tracker_id job_id net scheds page w)
              = Inr \<lparr>links = url # found, jobId = job_id,
                      successful_count = successful counts, skipped_count = skipped counts,
                      failed_count = failed counts\<rparr>
            \<and> counts = final_progress (scrape_effects nfkd hash urlparse url net scheds page)
                         (tracker_get (progress_tracker w) tracker_id))
         \<and> (\<exists>hrefs. page = Inr hrefs \<and> discover_links urlparse hrefs = Inr found)
         \<and> results_tracker (snd (scrape_url tmp nfkd hash urlparse url tracker_id job_id net scheds page w))
             = results_tracker w
         \<and> download_results job_id
             (snd (scrape_url tmp nfkd hash urlparse url tracker_id job_id net scheds page w))
             = Inl (HTTPException 404 ''Results not found'')"
proof -
  note c = assms(1)
  define pt1 where "pt1 = run_effects tracker_id effs (progress_tracker w)"
  obtain outcome pt2 fs2 where z:
    "create_zip_file tmp nfkd hash results job_id tracker_id (pt1, files w) = (outcome, pt2, fs2)"
    by (cases "create_zip_file tmp nfkd hash results job_id tracker_id (pt1, files w)")
  from assms(2) z have o: "outcome = Inl e" by (simp add: pt1_def)
  from z have pt2: "pt2 = run_effects tracker_id (archive_effects nfkd hash results) pt1"
    by (auto simp: create_zip_file_def Let_def split: if_splits)
  have counts: "tracker_get pt2 tracker_id
      = final_progress (scrape_effects nfkd hash urlparse url net scheds page)
          (tracker_get (progress_tracker w) tracker_id)"
    using c by (simp add: pt2 pt1_def scrape_effects_def run_effects_final final_progress_append)
  have s: "scrape_url tmp nfkd hash urlparse url tracker_id job_id net scheds page w =
      (Inr \<lparr>links = url # found, jobId = job_id,
             successful_count = successful (tracker_get pt2 tracker_id),
             skipped_count = skipped (tracker_get pt2 tracker_id),
             failed_count = failed (tracker_get pt2 tracker_id)\<rparr>,
       \<lparr>progress_tracker = pt2(tracker_id := None), results_tracker = results_tracker w,
        files = fs2\<rparr>)"
    using c z o by (simp add: scrape_url_def Let_def pt1_def)
  have d: "\<exists>hrefs. page = Inr hrefs \<and> discover_links urlparse hrefs = Inr found"
    using c by (auto simp: crawl_def split: prod.splits sum.splits)
  from s counts d assms(3) show ?thesis
    by (simp add: download_results_def)
qed

theorem archive_failure_is_swallowed_witness:
  "crawl urlparse_accepts ''https://x.com/a'' (Inr []) (net_always (Response 500 [])) []
     = ([Mut (SetCurrentUrl ''https://x.com/a''), Mut IncProcessed, Mut IncSkipped,
         Mut (SetTotal 1), Mut (SetProcessed 1)],
        Inr ([], [(''https://x.com/a'', [])]))
   \<and> fst (create_zip_file ''/tmp'' nfkd_of_ascii hash_42 [(''https://x.com/a'', [])] ''j'' ''k''
          (run_effects ''k'' [Mut (SetCurrentUrl ''https://x.com/a''), Mut IncProcessed, Mut IncSkipped,
              Mut (SetTotal 1), Mut (SetProcessed 1)] (progress_tracker empty_world),
           files empty_world)) = Inl (Exception ''No valid content to download'')
   \<and> results_tracker empty_world ''j'' = None
   \<and> fst (scrape_url ''/tmp'' nfkd_of_ascii hash_42 urlparse_accepts ''https://x.com/a'' ''k'' ''j''
            (net_always (Response 500 [])) [] (Inr []) empty_world)
        = Inr \<lparr>links = [''https://x.com/a''], jobId = ''j'',
                successful_count = 0, skipped_count = 1, failed_count = 0\<rparr>
   \<and> results_tracker (snd (scrape_url ''/tmp'' nfkd_of_ascii hash_42 urlparse_accepts
            ''https://x.com/a'' ''k'' ''j'' (net_always (Response 500 [])) [] (Inr []) empty_world))
        = results_tracker empty_world
   \<and> download_results ''j''
        (snd (scrape_url ''/tmp'' nfkd_of_ascii hash_42 urlparse_accepts ''https://x.com/a'' ''k'' ''j''
            (net_always (Response 500 [])) [] (Inr []) empty_world))
        = Inl (HTTPException 404 ''Results not found'')"
proof -
  have h0: "crawl urlparse_accepts ''https://x.com/a'' (Inr []) (net_always (Response 500 [])) []
     = ([Mut (SetCurrentUrl ''https://x.com/a''), Mut IncProcessed, Mut IncSkipped,
         Mut (SetTotal 1), Mut (SetProcessed 1)],
        Inr ([], [(''https://x.com/a'', [])]))"
    by code_simp
  have h1: "fst (create_zip_file ''/tmp'' nfkd_of_ascii hash_42 [(''https://x.com/a'', [])] ''j'' ''k''
          (run_effects ''k'' [Mut (SetCurrentUrl ''https://x.com/a''), Mut IncProcessed, Mut IncSkipped,
              Mut (SetTotal 1), Mut (SetProcessed 1)] (progress_tracker empty_world),
           files empty_world)) = Inl (Exception ''No valid content to download'')"
    by code_simp
  have h2: "results_tracker empty_world ''j'' = None" by (simp add: empty_world_def)
  have r: "fst (scrape_url ''/tmp'' nfkd_of_ascii hash_42 urlparse_accepts ''https://x.com/a'' ''k'' ''j''
            (net_always (Response 500 [])) [] (Inr []) empty_world)
        = Inr \<lparr>links = [''https://x.com/a''], jobId = ''j'',
                successful_count = 0, skipped_count = 1, failed_count = 0\<rparr>"
    by code_simp
  show ?thesis
    using h0 h1 h2 r archive_failure_is_swallowed [OF h0 h1 h2] by blast
qed



section \<open>Fetches and the removal of the progress record\<close>

lemma run_with_removal_other:
  "k' \<noteq> k \<Longrightarrow> run_with_removal k n es pt k' = pt k'"
  by (simp add: run_with_removal_def run_effects_other)

lemma run_effects_no_writes:
  "writes_of es = [] \<Longrightarrow> run_effects k (drop i es) pt = pt"
proof (induction es arbitrary: i)
  case Nil
  show ?case by simp
next
  case (Cons e es)
  then have e: "exec_effect k e pt = pt" and es: "writes_of es = []"
    by (cases e; simp)+
  show ?case
  proof (cases i)
    case 0
    with e Cons.IH [OF es, of 0] show ?thesis by simp
  next
    case (Suc j)
    with Cons.IH [OF es, of j] show ?thesis by simp
  qed
qed

text \<open>Every fetch ends with the two writes that count its URL, and makes no write before
  them.\<close>

lemma fetch_loop_shape:
  "\<exists>pre m. fst (fetch_loop jina_url timeout responses n retries) = pre @ [Mut IncProcessed, Mut m]
      \<and> writes_of pre = []
      \<and> (snd (fetch_loop jina_url timeout responses n retries) = [] \<longrightarrow> m = IncFailed)
      \<and> (snd (fetch_loop jina_url timeout responses n retries) \<noteq> [] \<longrightarrow> m = IncPotentialSuccessful)"
proof (induction jina_url timeout responses n retries rule: fetch_loop.induct)
  case (1 jina_url timeout responses n retries)
  show ?case
  proof (cases "retries \<le> MAX_RETRIES")
    case False
    then have "fetch_loop jina_url timeout responses n retries
        = ([] @ [Mut IncProcessed, Mut IncFailed], [])"
      by (subst fetch_loop.simps) simp
    then show ?thesis by (metis fst_conv snd_conv writes_of.simps(1))
  next
    case True
    show ?thesis
    proof (cases "attempt retries (responses n)")
      case (Fetched content)
      then have "\<not> too_short content"
        by (auto simp: attempt_def Let_def split: response.splits if_splits)
      then have ne: "content \<noteq> []" by (auto simp: too_short_def)
      from True Fetched have "fetch_loop jina_url timeout responses n retries
          = ([AcquireRateLimit, Get jina_url timeout] @ [Mut IncProcessed, Mut IncPotentialSuccessful],
             content)"
        by (subst fetch_loop.simps) simp
      moreover have "writes_of [AcquireRateLimit, Get jina_url timeout] = []" by simp
      ultimately show ?thesis using ne by (metis fst_conv snd_conv)
    next
      case (Backoff r)
      from "1.IH"(1) [OF True Backoff] obtain pre m where
        ih: "fst (fetch_loop jina_url timeout responses (n + 1) r) = pre @ [Mut IncProcessed, Mut m]"
          "writes_of pre = []"
          "snd (fetch_loop jina_url timeout responses (n + 1) r) = [] \<longrightarrow> m = IncFailed"
          "snd (fetch_loop jina_url timeout responses (n + 1) r) \<noteq> [] \<longrightarrow> m = IncPotentialSuccessful"
        by blast
      from True Backoff have "fetch_loop jina_url timeout responses n retries
          = (AcquireRateLimit # Get jina_url timeout # Sleep (RETRY_DELAY * r)
               # fst (fetch_loop jina_url timeout responses (n + 1) r),
             snd (fetch_loop jina_url timeout responses (n + 1) r))"
        by (subst fetch_loop.simps) (simp split: prod.splits)
      with ih(1) have "fst (fetch_loop jina_url timeout responses n retries)
            = (AcquireRateLimit # Get jina_url timeout # Sleep (RETRY_DELAY * r) # pre)
                @ [Mut IncProcessed, Mut m]"
        and "snd (fetch_loop jina_url timeout responses n retries)
            = snd (fetch_loop jina_url timeout responses (n + 1) r)"
        by simp_all
      moreover have "writes_of (AcquireRateLimit # Get jina_url timeout # Sleep (RETRY_DELAY * r) # pre) = []"
        using ih(2) by simp
      ultimately show ?thesis using ih(3,4) by metis
    next
      case (Raised r e)
      show ?thesis
      proof (cases "on_exception r e")
        case None
        with True Raised have "fetch_loop jina_url timeout responses n retries
            = ([AcquireRateLimit, Get jina_url timeout] @ [Mut IncProcessed, Mut IncFailed], [])"
          by (subst fetch_loop.simps) simp
        moreover have "writes_of [AcquireRateLimit, Get jina_url timeout] = []" by simp
        ultimately show ?thesis by (metis fst_conv snd_conv)
      next
        case (Some r')
        from "1.IH"(2) [OF True Raised Some] obtain pre m where
          ih: "fst (fetch_loop jina_url timeout responses (n + 1) r') = pre @ [Mut IncProcessed, Mut m]"
            "writes_of pre = []"
            "snd (fetch_loop jina_url timeout responses (n + 1) r') = [] \<longrightarrow> m = IncFailed"
            "snd (fetch_loop jina_url timeout responses (n + 1) r') \<noteq> [] \<longrightarrow> m = IncPotentialSuccessful"
          by blast
        from True Raised Some have "fetch_loop jina_url timeout responses n retries
            = (AcquireRateLimit # Get jina_url timeout # Sleep (RETRY_DELAY * r')
                 # fst (fetch_loop jina_url timeout responses (n + 1) r'),
               snd (fetch_loop jina_url timeout responses (n + 1) r'))"
          by (subst fetch_loop.simps) (simp split: prod.splits)
        with ih(1) have "fst (fetch_loop jina_url timeout responses n retries)
              = (AcquireRateLimit # Get jina_url timeout # Sleep (RETRY_DELAY * r') # pre)
                  @ [Mut IncProcessed, Mut m]"
          and "snd (fetch_loop jina_url timeout responses n retries)
              = snd (fetch_loop jina_url timeout responses (n + 1) r')"
          by simp_all
        moreover have "writes_of (AcquireRateLimit # Get jina_url timeout # Sleep (RETRY_DELAY * r') # pre) = []"
          using ih(2) by simp
        ultimately show ?thesis using ih(3,4) by metis
      qed
    qed
  qed
qed

lemma fetch_loop_accepts_first:
  assumes "responses 0 = Response 200 text" and "\<not> fetch_time_rejects text"
  shows "fetch_loop jina_url timeout responses 0 0 =
           ([AcquireRateLimit, Get jina_url timeout, Mut IncProcessed, Mut IncPotentialSuccessful],
            py_strip text)"
proof -
  from assms have "attempt 0 (responses 0) = Fetched (py_strip text)"
    by (simp add: attempt_def Let_def fetch_time_rejects_def fetch_rejects_def)
  then show ?thesis by (subst fetch_loop.simps) simp
qed

lemma removal_in_flight:
  assumes "writes_of pre = []" and "1 \<le> n" and "n \<le> length pre + 1"
  shows "run_with_removal k n (Mut (SetCurrentUrl url) # pre @ [Mut IncProcessed, Mut m]) pt k
           = Some (apply_mutation m (apply_mutation IncProcessed default_progress))"
proof -
  obtain j where n: "n = Suc j" and j: "j \<le> length pre"
    using assms(2,3) by (cases n) simp_all
  have "drop n (Mut (SetCurrentUrl url) # pre @ [Mut IncProcessed, Mut m])
      = drop j pre @ [Mut IncProcessed, Mut m]"
    using j by (simp add: n)
  then show ?thesis
    by (simp add: run_with_removal_def run_effects_append run_effects_no_writes [OF assms(1)]
        mutate_def tracker_get_def)
qed

text \<open>
  C9, as stated: the cancellation deletes the progress record of the job, and a fetch that
  completes with no record left discards its result. Neither holds. \<open>cancel_scrape\<close> raises
  \<open>NameError\<close> and leaves the record in place. And a fetch whose record is removed while it
  waits for the response returns the page it then gets, and counts its URL in a fresh record
  that the \<open>defaultdict\<close> makes for the key.
\<close>

theorem cancel_counterexample:
  "cancel_scrape ''job'' world_with_job = (Inl (NameError ''cancel_scraping''), world_with_job)
   \<and> progress_tracker (snd (cancel_scrape ''job'' world_with_job)) ''job'' = Some default_progress
   \<and> snd (get_markdown_content urlparse_accepts ''http://a.org/'' (always (Response 200 sample_page)))
       = Inr (''http://a.org/'', sample_page)
   \<and> sample_page \<noteq> []
   \<and> run_with_removal ''job'' 3
        (fst (get_markdown_content urlparse_accepts ''http://a.org/'' (always (Response 200 sample_page))))
        (progress_tracker world_with_job) ''job''
       = Some (default_progress\<lparr>processed := 1, potential_successful := 1\<rparr>)"
proof -
  have g: "get_markdown_content urlparse_accepts ''http://a.org/'' (always (Response 200 sample_page))
      = ([Mut (SetCurrentUrl ''http://a.org/''), AcquireRateLimit,
          Get ''https://r.jina.ai/http://a.org/'' 30,
          Mut IncProcessed, Mut IncPotentialSuccessful],
         Inr (''http://a.org/'', sample_page))"
    by code_simp
  have s: "sample_page \<noteq> []" by (simp add: sample_page_def)
  show ?thesis
    unfolding g
    using s
    by (simp add: cancel_scrape_def world_with_job_def empty_world_def run_with_removal_def
        mutate_def tracker_get_def default_progress_def)
qed

text \<open>
  C9, amended: a fetch is not interrupted by the removal of its job's progress record and
  changes the record of no other job. When the record is removed while the fetch is in
  flight, after its first write and before the two writes that count its URL, its result is
  not discarded: the fetch returns its pair of the URL and the content to the crawl, the
  stripped text of the page when the service answers 200 with a text that passes the
  fetch-time check, and the tracker makes a default record for the key, in which the fetch
  counts the URL as processed with one outcome, a provisional success when the content is
  not empty.
\<close>

theorem fetch_survives_removal:
  assumes "should_skip_url urlparse url = Inr False"
    and "1 \<le> n"
    and "n + 2 \<le> length (fst (get_markdown_content urlparse url responses))"
  shows "(\<exists>content p.
            snd (get_markdown_content urlparse url responses) = Inr (url, content)
            \<and> run_with_removal k n (fst (get_markdown_content urlparse url responses)) pt k = Some p
            \<and> processed p = 1 \<and> counted p = 1
            \<and> potential_successful p = (if content = [] then 0 else 1))
         \<and> (k' \<noteq> k \<longrightarrow>
              run_with_removal k n (fst (get_markdown_content urlparse url responses)) pt k' = pt k')
         \<and> (responses 0 = Response 200 text \<and> \<not> fetch_time_rejects text \<longrightarrow>
              snd (get_markdown_content urlparse url responses) = Inr (url, py_strip text))"
proof -
  define j where "j = ''https://r.jina.ai/'' @ transform_arxiv_url url"
  define t where "t = (if is_pdf_url (transform_arxiv_url url) then PDF_TIMEOUT else DEFAULT_TIMEOUT)"
  have g: "get_markdown_content urlparse url responses =
      (Mut (SetCurrentUrl url) # fst (fetch_loop j t responses 0 0),
       Inr (url, snd (fetch_loop j t responses 0 0)))"
    using assms(1)
    by (simp add: get_markdown_content_def Let_def j_def t_def split: prod.splits)
  obtain pre m where
    shape: "fst (fetch_loop j t responses 0 0) = pre @ [Mut IncProcessed, Mut m]"
      "writes_of pre = []"
      "snd (fetch_loop j t responses 0 0) = [] \<longrightarrow> m = IncFailed"
      "snd (fetch_loop j t responses 0 0) \<noteq> [] \<longrightarrow> m = IncPotentialSuccessful"
    using fetch_loop_shape [of j t responses 0 0] by blast
  from assms(3) have n: "n \<le> length pre + 1" by (simp add: g shape(1))
  define p where "p = apply_mutation m (apply_mutation IncProcessed default_progress)"
  have r: "run_with_removal k n (fst (get_markdown_content urlparse url responses)) pt k = Some p"
    using removal_in_flight [OF shape(2) assms(2) n, of k url m pt]
    by (simp add: g shape(1) p_def)
  have c: "processed p = 1 \<and> counted p = 1
      \<and> potential_successful p = (if snd (fetch_loop j t responses 0 0) = [] then 0 else 1)"
    using shape(3,4)
    by (cases "snd (fetch_loop j t responses 0 0) = []")
       (simp_all add: p_def default_progress_def counted_def)
  have first: "\<exists>content p.
      snd (get_markdown_content urlparse url responses) = Inr (url, content)
      \<and> run_with_removal k n (fst (get_markdown_content urlparse url responses)) pt k = Some p
      \<and> processed p = 1 \<and> counted p = 1
      \<and> potential_successful p = (if content = [] then 0 else 1)"
    using r c g by (metis snd_conv)
  have second: "k' \<noteq> k \<longrightarrow>
      run_with_removal k n (fst (get_markdown_content urlparse url responses)) pt k' = pt k'"
    by (simp add: run_with_removal_other)
  have third: "responses 0 = Response 200 text \<and> \<not> fetch_time_rejects text \<longrightarrow>
      snd (get_markdown_content urlparse url responses) = Inr (url, py_strip text)"
    using fetch_loop_accepts_first [of responses "text" j t] by (auto simp: g)
  from first second third show ?thesis by blast
qed

theorem fetch_survives_removal_witness:
  "should_skip_url urlparse_accepts ''http://a.org/'' = Inr False
   \<and> (1::nat) \<le> 2
   \<and> 2 + 2 \<le> length (fst (get_markdown_content urlparse_accepts ''http://a.org/''
                              (always (Response 200 sample_page))))
   \<and> ''other'' \<noteq> ''job''
   \<and> always (Response 200 sample_page) 0 = Response 200 sample_page
   \<and> \<not> fetch_time_rejects sample_page
   \<and> (\<exists>content p.
        snd (get_markdown_content urlparse_accepts ''http://a.org/'' (always (Response 200 sample_page)))
          = Inr (''http://a.org/'', content)
        \<and> run_with_removal ''job'' 2
            (fst (get_markdown_content urlparse_accepts ''http://a.org/''
                    (always (Response 200 sample_page))))
            (progress_tracker world_with_job) ''job'' = Some p
        \<and> processed p = 1 \<and> counted p = 1
        \<and> potential_successful p = (if content = [] then 0 else 1))
   \<and> run_with_removal ''job'' 2
        (fst (get_markdown_content urlparse_accepts ''http://a.org/''
                (always (Response 200 sample_page))))
        (progress_tracker world_with_job) ''other'' = progress_tracker world_with_job ''other''
   \<and> snd (get_markdown_content urlparse_accepts ''http://a.org/'' (always (Response 200 sample_page)))
       = Inr (''http://a.org/'', py_strip sample_page)"
proof -
  have h1: "should_skip_url urlparse_accepts ''http://a.org/'' = Inr False" by code_simp
  have h2: "(1::nat) \<le> 2" by simp
  have h3: "2 + 2 \<le> length (fst (get_markdown_content urlparse_accepts ''http://a.org/''
                              (always (Response 200 sample_page))))"
    by code_simp
  have h4: "''other'' \<noteq> ''job''" by simp
  have h5: "always (Response 200 sample_page) 0 = Response 200 sample_page"
    by (simp add: always_def)
  have h6: "\<not> fetch_time_rejects sample_page" by code_simp
  show ?thesis
    using h1 h2 h3 h4 h5 h6
      fetch_survives_removal [OF h1 h2 h3, of "''job''" "progress_tracker world_with_job"
        "''other''" sample_page]
    by blast
qed


end
